theory Spec2Isabelle
  imports Main "HOL-Library.Char_ord" "HOL-Library.List_Lexorder" "HOL-Library.Multiset"
begin

section \<open>Constants of model.go\<close>

definition decaptaIDField :: string where
  "decaptaIDField = ''slug''"

definition decaptaPrefix :: string where
  "decaptaPrefix = ''decapta_''"

text \<open>\<^verbatim>\<open>reservedFields()\<close> returns the map \<^verbatim>\<open>{"data": true}\<close>; indexing a Go
  \<^verbatim>\<open>map[string]bool\<close> at an absent key gives \<^verbatim>\<open>false\<close>.\<close>

definition reservedFields :: "string \<Rightarrow> bool" where
  "reservedFields fieldName = (fieldName = ''data'')"

section \<open>String helpers of the Go standard library\<close>

definition HasPrefix :: "string \<Rightarrow> string \<Rightarrow> bool" where
  "HasPrefix s p = (length p \<le> length s \<and> take (length p) s = p)"

definition TrimPrefix :: "string \<Rightarrow> string \<Rightarrow> string" where
  "TrimPrefix s p = (if HasPrefix s p then drop (length p) s else s)"

definition HasSuffix :: "string \<Rightarrow> string \<Rightarrow> bool" where
  "HasSuffix s x = (length x \<le> length s \<and> drop (length s - length x) s = x)"

definition TrimSuffix :: "string \<Rightarrow> string \<Rightarrow> string" where
  "TrimSuffix s x = (if HasSuffix s x then take (length s - length x) s else s)"

fun strings_Join :: "string list \<Rightarrow> string \<Rightarrow> string" where
  "strings_Join [] sep = []"
| "strings_Join [a] sep = a"
| "strings_Join (a # b # rest) sep = a @ sep @ strings_Join (b # rest) sep"

section \<open>csv.go: reserved names and the identifier field\<close>

definition addPrefixIfReserved :: "string \<Rightarrow> string" where
  "addPrefixIfReserved fieldName =
     (if reservedFields fieldName then decaptaPrefix @ fieldName else fieldName)"

definition removePrefixIfReserved :: "string \<Rightarrow> string" where
  "removePrefixIfReserved fieldName =
     (if HasPrefix fieldName decaptaPrefix \<and> reservedFields (TrimPrefix fieldName decaptaPrefix)
      then TrimPrefix fieldName decaptaPrefix else fieldName)"

text \<open>\<^verbatim>\<open>generateIdentifierField\<close>: the record is a Go map from field name to value, the
  parameter \<open>fmtv\<close> is the rendering \<^verbatim>\<open>fmt.Sprintf("%v", value)\<close> of a value. The loop
  appends the rendering of every configured field that the map holds.\<close>

fun slugParts :: "('v \<Rightarrow> string) \<Rightarrow> (string \<rightharpoonup> 'v) \<Rightarrow> string list \<Rightarrow> string list" where
  "slugParts fmtv data [] = []"
| "slugParts fmtv data (field # fields) =
     (case data field of
        Some v \<Rightarrow> fmtv v # slugParts fmtv data fields
      | None \<Rightarrow> slugParts fmtv data fields)"

definition generateIdentifierField :: "('v \<Rightarrow> string) \<Rightarrow> (string \<rightharpoonup> 'v) \<Rightarrow> string list \<Rightarrow> string" where
  "generateIdentifierField fmtv data fields = strings_Join (slugParts fmtv data fields) ''-''"

text \<open>The body of the row loop of \<^verbatim>\<open>CSVPreProcess\<close>: the cells of one row are stored under
  the prefixed header of their column (cells beyond the last header are dropped, a later
  column of the same name overwrites an earlier one), then the identifier is stored under
  \<^verbatim>\<open>decaptaIDField\<close>. The values are the CSV strings, whose \<^verbatim>\<open>%v\<close> rendering is the string.\<close>

fun fillRow :: "string list \<Rightarrow> string list \<Rightarrow> (string \<rightharpoonup> string) \<Rightarrow> (string \<rightharpoonup> string)" where
  "fillRow (h # hs) (v # vs) data = fillRow hs vs (data(addPrefixIfReserved h \<mapsto> v))"
| "fillRow _ _ data = data"

definition rowDocument :: "string list \<Rightarrow> string list \<Rightarrow> string list \<Rightarrow> (string \<rightharpoonup> string)" where
  "rowDocument headers slugFields record =
     (let data = fillRow headers record Map.empty;
          idField = generateIdentifierField id data slugFields
      in data(decaptaIDField \<mapsto> idField))"

section \<open>arb.go: the ordered document\<close>

datatype error = UnexpectedDataType string | IndexOutOfRange | NilDereference

text \<open>\<^verbatim>\<open>KVPair\<close> and \<^verbatim>\<open>OrderedMap\<close> as declared; the value type is a parameter.\<close>

datatype 'v KVPair = KVPair (Key: string) (Value: 'v)

type_synonym 'v OrderedMap = "'v KVPair list"

text \<open>A Go \<^verbatim>\<open>map[string]T\<close> that the code ranges over is a key-unique association list:
  \<open>mapStore\<close> is the assignment \<^verbatim>\<open>m[k] = v\<close>, \<open>mapLookup\<close> the two-valued index
  expression. The position of an entry in the list has no meaning in Go (iteration order
  is unspecified); every consumer below sorts the keys before it uses them, as the code
  and the encoders do.\<close>

type_synonym 'v gomap = "(string \<times> 'v) list"

fun mapStore :: "string \<Rightarrow> 'v \<Rightarrow> 'v gomap \<Rightarrow> 'v gomap" where
  "mapStore k v [] = [(k, v)]"
| "mapStore k v ((k', v') # m) = (if k' = k then (k, v) # m else (k', v') # mapStore k v m)"

definition mapLookup :: "'v gomap \<Rightarrow> string \<Rightarrow> 'v option" where
  "mapLookup m k = map_of m k"

text \<open>\<^verbatim>\<open>json.MarshalIndent\<close> of a map writes one member per key, the keys sorted as byte
  strings. The serialization is modelled by the sequence of members it writes.\<close>

definition json_members :: "'v gomap \<Rightarrow> (string \<times> 'v) list" where
  "json_members m = sort_key fst m"

definition MarshalJSON :: "'v OrderedMap \<Rightarrow> (string \<times> 'v) list" where
  "MarshalJSON om =
     json_members (fold (\<lambda>kv tempMap. mapStore (Key kv) (Value kv) tempMap) om [])"

fun Get :: "'v OrderedMap \<Rightarrow> string \<Rightarrow> 'v option" where
  "Get [] key = None"
| "Get (kv # om) key = (if Key kv = key then Some (Value kv) else Get om key)"

text \<open>A decoded \<^verbatim>\<open>interface{}\<close> value: \<^verbatim>\<open>nil\<close>, a scalar (the scalar types are a
  parameter), a slice, or a \<^verbatim>\<open>map[string]interface{}\<close>.\<close>

datatype 'a val = Nil | Atom 'a | Items "'a val list" | Dict "(string \<times> 'a val) list"

section \<open>arb.go: forward and reverse conversion of one translation file\<close>

text \<open>The loop of \<^verbatim>\<open>ARBPreProcess\<close> over the decoded \<^verbatim>\<open>arbData\<close>, which builds the front
  matter written to the per-language content document.\<close>

definition translationEntry :: "'a val OrderedMap \<Rightarrow> 'a val KVPair \<Rightarrow> 'a val gomap" where
  "translationEntry arbData kv =
     (let entry = [(''value'', Value kv)]
      in case Get arbData (''@'' @ Key kv) of
           Some metadataValue \<Rightarrow> mapStore ''metadata'' metadataValue entry
         | None \<Rightarrow> entry)"

definition ARBPreProcess :: "'a val OrderedMap \<Rightarrow> 'a val gomap" where
  "ARBPreProcess arbData =
     fold (\<lambda>kv frontMatter.
             if HasPrefix (Key kv) ''@'' then frontMatter
             else mapStore (Key kv) (Dict (translationEntry arbData kv)) frontMatter)
          arbData []"

definition getOrderedKeys :: "'v gomap \<Rightarrow> string list" where
  "getOrderedKeys data = sort (map fst data)"

text \<open>The loop of \<^verbatim>\<open>ARBPostProcess\<close> over the sorted keys of the content document (read
  back into a Go map), then the serialization of the rebuilt \<^verbatim>\<open>arbData\<close>.\<close>

fun arbEntries :: "'a val gomap \<Rightarrow> string list \<Rightarrow> 'a val OrderedMap \<Rightarrow> error + 'a val OrderedMap" where
  "arbEntries frontMatter [] arbData = Inr arbData"
| "arbEntries frontMatter (key # keys) arbData =
     (case mapLookup frontMatter key of
        Some (Dict entry) \<Rightarrow>
          (let value = (case mapLookup entry ''value'' of Some v \<Rightarrow> v | None \<Rightarrow> Nil);
               arbData1 = arbData @ [KVPair key value];
               arbData2 = (case mapLookup entry ''metadata'' of
                             Some metadata \<Rightarrow> arbData1 @ [KVPair (''@'' @ key) metadata]
                           | None \<Rightarrow> arbData1)
           in arbEntries frontMatter keys arbData2)
      | _ \<Rightarrow> Inl (UnexpectedDataType key))"

definition ARBPostProcess :: "'a val gomap \<Rightarrow> error + (string \<times> 'a val) list" where
  "ARBPostProcess frontMatter =
     (case arbEntries frontMatter (getOrderedKeys frontMatter) [] of
        Inl e \<Rightarrow> Inl e
      | Inr arbData \<Rightarrow> Inr (MarshalJSON arbData))"

text \<open>The entries of a source that survive the round trip: every entry whose key does not
  start with \<^verbatim>\<open>@\<close>, and every entry \<^verbatim>\<open>@k\<close> whose primary key \<^verbatim>\<open>k\<close> is such an entry of the
  source.\<close>

definition arbKept :: "'v OrderedMap \<Rightarrow> 'v KVPair \<Rightarrow> bool" where
  "arbKept om kv =
     (case Key kv of
        [] \<Rightarrow> True
      | c # rest \<Rightarrow> c \<noteq> CHR ''@'' \<or> (\<not> HasPrefix rest ''@'' \<and> rest \<in> set (map Key om)))"

definition pairOf :: "'v KVPair \<Rightarrow> string \<times> 'v" where
  "pairOf kv = (Key kv, Value kv)"

text \<open>What one iteration of the reverse loop appends for a key.\<close>

definition emitted :: "'a val gomap \<Rightarrow> string \<Rightarrow> 'a val OrderedMap" where
  "emitted frontMatter key =
     (case mapLookup frontMatter key of
        Some (Dict entry) \<Rightarrow>
          KVPair key (case mapLookup entry ''value'' of Some v \<Rightarrow> v | None \<Rightarrow> Nil) #
          (case mapLookup entry ''metadata'' of
             Some metadata \<Rightarrow> [KVPair (''@'' @ key) metadata]
           | None \<Rightarrow> [])
      | _ \<Rightarrow> [])"

definition outOf :: "'a val OrderedMap \<Rightarrow> 'a val KVPair \<Rightarrow> 'a val OrderedMap" where
  "outOf om kv = KVPair (Key kv) (Value kv) #
     (case Get om (''@'' @ Key kv) of Some m \<Rightarrow> [KVPair (''@'' @ Key kv) m] | None \<Rightarrow> [])"

section \<open>csv.go: file numbers\<close>

text \<open>\<^verbatim>\<open>strconv.Atoi\<close> (standard library) on a 64-bit platform: an optional sign, then one or
  more ASCII digits and nothing else, denoting a value within the range of \<^verbatim>\<open>int\<close>; anything
  else is an error.\<close>

definition isDigit :: "char \<Rightarrow> bool" where
  "isDigit c = (CHR ''0'' \<le> c \<and> c \<le> CHR ''9'')"

definition digitVal :: "char \<Rightarrow> nat" where
  "digitVal c = of_char c - of_char CHR ''0''"

fun parseDigits :: "string \<Rightarrow> nat \<Rightarrow> nat option" where
  "parseDigits [] n = Some n"
| "parseDigits (ch # s) n = (if isDigit ch then parseDigits s (n * 10 + digitVal ch) else None)"

definition Atoi :: "string \<Rightarrow> int option" where
  "Atoi s0 =
     (let neg = (case s0 of [] \<Rightarrow> False | c # _ \<Rightarrow> c = CHR ''-'');
          s = (case s0 of [] \<Rightarrow> [] | c # r \<Rightarrow> if c = CHR ''-'' \<or> c = CHR ''+'' then r else s0)
      in if s = [] then None
         else case parseDigits s 0 of
                None \<Rightarrow> None
              | Some n \<Rightarrow>
                  (let v = (if neg then - int n else int n)
                   in if - (2 ^ 63) \<le> v \<and> v < 2 ^ 63 then Some v else None))"

text \<open>\<^verbatim>\<open>filepath.Ext\<close>: the suffix that starts at the last dot of the last path element,
  empty when that element has no dot. The scan runs from the end of the path.\<close>

fun extScan :: "string \<Rightarrow> string \<Rightarrow> string" where
  "extScan [] acc = []"
| "extScan (c # r) acc =
     (if c = CHR ''/'' then [] else if c = CHR ''.'' then c # acc else extScan r (c # acc))"

definition Ext :: "string \<Rightarrow> string" where
  "Ext path = extScan (rev path) []"

definition extractFileNumber :: "string \<Rightarrow> int" where
  "extractFileNumber filename =
     (case Atoi (TrimSuffix filename (Ext filename)) of None \<Rightarrow> - 1 | Some num \<Rightarrow> num)"

text \<open>The decimal rendering of \<^verbatim>\<open>fmt.Sprintf("%d", n)\<close> for a non-negative \<open>n\<close>.\<close>

definition digitChar :: "nat \<Rightarrow> char" where
  "digitChar d = char_of (of_char CHR ''0'' + d)"

fun decimal :: "nat \<Rightarrow> string" where
  "decimal n = (if n < 10 then [digitChar n] else decimal (n div 10) @ [digitChar (n mod 10)])"

declare decimal.simps [simp del]

text \<open>\<^verbatim>\<open>sort.Slice\<close> with the comparison \<^verbatim>\<open>num(files[i]) < num(files[j])\<close> leaves a permutation
  of its input that is ascending in \<open>num\<close>; the order among equal numbers is not specified
  by the library. The model sorts by insertion; what is proved about the order of rows
  uses the permutation and the ascent only.\<close>

definition sortSlice :: "('a \<Rightarrow> int) \<Rightarrow> 'a list \<Rightarrow> 'a list" where
  "sortSlice num files = sort_key num files"

text \<open>The files that the read loop of \<^verbatim>\<open>CSVPostProcess\<close> does not skip. A directory entry is
  its name paired with its decoded content.\<close>

definition yamlEntries :: "string \<Rightarrow> (string \<times> 'd) list \<Rightarrow> (string \<times> 'd) list" where
  "yamlEntries csvName files =
     filter (\<lambda>file. \<not> (\<not> HasSuffix (fst file) ''.yaml'' \<or> fst file = ''.'' @ csvName @ ''.yaml'')) files"

section \<open>csv.go: forward and reverse conversion of one table\<close>

text \<open>\<^verbatim>\<open>CSVPreProcess\<close> for one CSV file whose records have been read: nothing for a file
  without records, else the column order record and the per-row documents with their file
  names \<^verbatim>\<open>1.yaml\<close>, \<^verbatim>\<open>2.yaml\<close>, ... The YAML codec is taken to return, on reading, the map
  that was written.\<close>

definition CSVPreProcess ::
  "string list list \<Rightarrow> string list \<Rightarrow> (string list \<times> (string \<times> (string \<rightharpoonup> string)) list) option" where
  "CSVPreProcess records slugFields =
     (case records of
        [] \<Rightarrow> None
      | headers # rows \<Rightarrow>
          Some (map addPrefixIfReserved headers,
                map (\<lambda>(i, record). (decimal (i + 1) @ ''.yaml'', rowDocument headers slugFields record))
                    (enumerate 0 rows)))"

text \<open>\<^verbatim>\<open>os.ReadDir\<close> lists a directory sorted by file name.\<close>

definition ReadDir :: "(string \<times> 'd) list \<Rightarrow> (string \<times> 'd) list" where
  "ReadDir entries = sort_key fst entries"

text \<open>\<^verbatim>\<open>CSVPostProcess\<close> for one content directory: \<open>headers\<close> is the column order record as
  read, \<open>files\<close> the directory listing; the result is the list of CSV records written,
  header row first.\<close>

definition CSVPostProcess ::
  "('v \<Rightarrow> string) \<Rightarrow> string \<Rightarrow> string list \<Rightarrow> (string \<times> (string \<rightharpoonup> 'v)) list \<Rightarrow> string list list" where
  "CSVPostProcess fmtv csvName headers files =
     (let sortedFiles = sortSlice (\<lambda>file. extractFileNumber (fst file)) files;
          records = map snd (yamlEntries csvName sortedFiles);
          originalHeaders = map removePrefixIfReserved headers;
          rows = map (\<lambda>record.
                       map (\<lambda>header. case record (addPrefixIfReserved header) of
                                        Some val \<Rightarrow> fmtv val
                                      | None \<Rightarrow> [])
                           headers)
                     records
      in originalHeaders # rows)"

definition CSVRoundTrip :: "string \<Rightarrow> string list list \<Rightarrow> string list \<Rightarrow> string list list option" where
  "CSVRoundTrip csvName records slugFields =
     (case CSVPreProcess records slugFields of
        None \<Rightarrow> None
      | Some (columns, docs) \<Rightarrow> Some (CSVPostProcess id csvName columns (ReadDir docs)))"

text \<open>A row as it comes back: the cell of a column named \<^verbatim>\<open>slug\<close> holds the identifier.\<close>

definition restoredRow :: "string list \<Rightarrow> string list \<Rightarrow> string list \<Rightarrow> string list" where
  "restoredRow headers slugFields record =
     map (\<lambda>(h, v). if h = decaptaIDField
                    then generateIdentifierField id (fillRow headers record Map.empty) slugFields
                    else v)
         (zip headers record)"

section \<open>model.go: the node tree and the descriptors\<close>

text \<open>\<^verbatim>\<open>yaml.Node\<close>: the fields the code reads and writes are \<^verbatim>\<open>Kind\<close>, \<^verbatim>\<open>Tag\<close>, \<^verbatim>\<open>Value\<close> and
  \<^verbatim>\<open>Content\<close>; style, comments and positions are never touched and travel with the node.
  Trees with anchors and aliases are outside the model. A mapping node holds its keys and
  values alternating in \<^verbatim>\<open>Content\<close>.\<close>

datatype kind = DocumentNode | SequenceNode | MappingNode | ScalarNode

datatype node = Node (Kind: kind) (Tag: string) (Value': string) (Content: "node list")

definition setContent :: "node \<Rightarrow> node list \<Rightarrow> node" where
  "setContent n cs = Node (Kind n) (Tag n) (Value' n) cs"

text \<open>The descriptor structs of model.go. \<^verbatim>\<open>Field.Default\<close> (an \<^verbatim>\<open>interface{}\<close>) and the
  values of \<^verbatim>\<open>Field.Meta\<close> are held in encoded form, as nodes; \<open>None\<close> is \<^verbatim>\<open>nil\<close>.\<close>

datatype Field = Field
  (Field_Label: string) (Field_Name: string) (Field_Widget: string) (Field_Modes: "string list")
  (Field_Fields: "Field list") (Field_Collapsed: bool) (Field_Hint: string)
  (Field_Placeholder: string) (Field_Required: bool) (Field_Default: "node option")
  (Field_Pattern: string) (Field_PatternMsg: string) (Field_Meta: "(string \<times> node) list")

record File =
  File_Name :: string
  File_Label :: string
  File_File :: string
  File_Fields :: "Field list"

record Editor =
  Preview :: bool

record Collection =
  Name :: string
  Label :: string
  Folder :: string
  Create :: bool
  Slug :: string
  IdentifierField :: string
  Format :: string
  Extension :: string
  Editor :: Editor
  Files :: "File list"
  Fields :: "Field list"

text \<open>\<^verbatim>\<open>Node.Encode\<close> of the yaml.v3 library encodes the value and parses the text back; the
  node it stores is the content of the parsed document, which for a struct is a mapping
  node with one key and value per struct field, in declaration order. A field tagged
  \<^verbatim>\<open>omitempty\<close> is left out when it is the empty string, \<^verbatim>\<open>false\<close>, an empty slice or map,
  \<^verbatim>\<open>nil\<close>, or a struct whose fields are all zero. Strings are taken to be valid UTF-8, so
  that they are written and read back as \<^verbatim>\<open>!!str\<close> scalars.\<close>

definition strNode :: "string \<Rightarrow> node" where
  "strNode s = Node ScalarNode ''!!str'' s []"

definition boolNode :: "bool \<Rightarrow> node" where
  "boolNode b = Node ScalarNode ''!!bool'' (if b then ''true'' else ''false'') []"

definition seqNode :: "node list \<Rightarrow> node" where
  "seqNode cs = Node SequenceNode ''!!seq'' [] cs"

definition mapNode :: "node list \<Rightarrow> node" where
  "mapNode cs = Node MappingNode ''!!map'' [] cs"

definition strPair :: "string \<Rightarrow> string \<Rightarrow> node list" where
  "strPair k s = [strNode k, strNode s]"

definition optStr :: "string \<Rightarrow> string \<Rightarrow> node list" where
  "optStr k s = (if s = [] then [] else strPair k s)"

definition optBool :: "string \<Rightarrow> bool \<Rightarrow> node list" where
  "optBool k b = (if b then [strNode k, boolNode True] else [])"

fun Encode_Field :: "Field \<Rightarrow> node" where
  "Encode_Field (Field label name widget modes subfields collapsed hint placeholder required
                       dflt pattern patternMsg meta) =
     mapNode (strPair ''label'' label @ strPair ''name'' name @ strPair ''widget'' widget @
              (if modes = [] then [] else [strNode ''modes'', seqNode (map strNode modes)]) @
              (if subfields = [] then []
               else [strNode ''fields'', seqNode (map Encode_Field subfields)]) @
              optBool ''collapsed'' collapsed @ optStr ''hint'' hint @
              optStr ''placeholder'' placeholder @ optBool ''required'' required @
              (case dflt of None \<Rightarrow> [] | Some d \<Rightarrow> [strNode ''default'', d]) @
              optStr ''pattern'' pattern @ optStr ''pattern_msg'' patternMsg @
              (if meta = [] then []
               else [strNode ''meta'',
                     mapNode (concat (map (\<lambda>(k, v). [strNode k, v]) (sort_key fst meta)))]))"

definition Encode_File :: "File \<Rightarrow> node" where
  "Encode_File f =
     mapNode (strPair ''name'' (File_Name f) @ strPair ''label'' (File_Label f) @
              strPair ''file'' (File_File f) @
              [strNode ''fields'', seqNode (map Encode_Field (File_Fields f))])"

definition Encode_Collection :: "Collection \<Rightarrow> node" where
  "Encode_Collection c =
     mapNode (strPair ''name'' (Name c) @ strPair ''label'' (Label c) @
              optStr ''folder'' (Folder c) @ optBool ''create'' (Create c) @
              optStr ''slug'' (Slug c) @ optStr ''identifier_field'' (IdentifierField c) @
              optStr ''format'' (Format c) @ optStr ''extension'' (Extension c) @
              (if Preview (Editor c)
               then [strNode ''editor'', mapNode [strNode ''preview'', boolNode True]] else []) @
              (if Files c = [] then [] else [strNode ''files'', seqNode (map Encode_File (Files c))]) @
              (if Fields c = [] then [] else [strNode ''fields'', seqNode (map Encode_Field (Fields c))]))"

text \<open>\<^verbatim>\<open>Node.Decode\<close> into a \<^verbatim>\<open>Collection\<close>, as far as the code uses it: the \<^verbatim>\<open>Folder\<close> field.
  A node that is not a mapping decodes to the zero struct (the error is ignored), and so
  does a mapping in which two keys have the same kind and value (the decoder reports the
  duplicate before it fills the struct). Otherwise the first scalar key equal to \<^verbatim>\<open>folder\<close>
  decides, and its value is taken when it is a scalar that is not null. Merge keys
  (\<^verbatim>\<open><<\<close>) are outside the model, as aliases are.\<close>

definition isNull :: "node \<Rightarrow> bool" where
  "isNull n = (Tag n = ''!!null'' \<or>
               (Tag n = [] \<and> Value' n \<in> set [[], ''~'', ''null'', ''Null'', ''NULL'']))"

fun keysOf :: "node list \<Rightarrow> node list" where
  "keysOf (k # v # rest) = k # keysOf rest"
| "keysOf cs = cs"

definition uniqueKeys :: "node list \<Rightarrow> bool" where
  "uniqueKeys cs = distinct (map (\<lambda>k. (Kind k, Value' k)) (keysOf cs))"

fun decodeStringField :: "node list \<Rightarrow> string \<Rightarrow> string" where
  "decodeStringField (k # v # rest) name =
     (if Kind k = ScalarNode \<and> \<not> isNull k \<and> Value' k = name
      then (if Kind v = ScalarNode \<and> \<not> isNull v then Value' v else [])
      else decodeStringField rest name)"
| "decodeStringField _ name = []"

definition Decode_Folder :: "node \<Rightarrow> string" where
  "Decode_Folder n =
     (if Kind n = MappingNode \<and> uniqueKeys (Content n)
      then decodeStringField (Content n) ''folder'' else [])"

text \<open>\<^verbatim>\<open>findFieldInNode\<close>: the loop over \<^verbatim>\<open>node.Content\<close> in steps of two. When the key
  matches at the last index of a list of odd length, \<^verbatim>\<open>node.Content[i+1]\<close> panics.
  \<^verbatim>\<open>findOrCreateCollectionsNode\<close> runs the same loop on the top-level node.\<close>

fun findField :: "node list \<Rightarrow> string \<Rightarrow> error + node option" where
  "findField [] key = Inr None"
| "findField [k] key = (if Value' k = key then Inl IndexOutOfRange else Inr None)"
| "findField (k # v # rest) key = (if Value' k = key then Inr (Some v) else findField rest key)"

definition findFieldInNode :: "node \<Rightarrow> string \<Rightarrow> error + node option" where
  "findFieldInNode node key = findField (Content node) key"

text \<open>The pointer that \<^verbatim>\<open>findFieldInNode\<close> returns is a child of the node searched, and the
  merge functions change that child in place. \<open>storeField\<close> puts the changed child back at
  the position where \<open>findField\<close> found it.\<close>

fun storeField :: "node list \<Rightarrow> string \<Rightarrow> node \<Rightarrow> node list" where
  "storeField (k # v # rest) key v' =
     (if Value' k = key then k # v' # rest else k # v # storeField rest key v')"
| "storeField cs key v' = cs"

fun findFieldByName :: "node list \<Rightarrow> string \<Rightarrow> error + node option" where
  "findFieldByName [] fieldName = Inr None"
| "findFieldByName (fieldNode # rest) fieldName =
     (case findFieldInNode fieldNode ''name'' of
        Inl e \<Rightarrow> Inl e
      | Inr (Some nameNode) \<Rightarrow>
          if Value' nameNode = fieldName then Inr (Some fieldNode)
          else findFieldByName rest fieldName
      | Inr None \<Rightarrow> findFieldByName rest fieldName)"

fun mergeFieldsLoop :: "node \<Rightarrow> node list \<Rightarrow> error + node" where
  "mergeFieldsLoop existingFieldsNode [] = Inr existingFieldsNode"
| "mergeFieldsLoop existingFieldsNode (newFieldNode # rest) =
     (case findFieldInNode newFieldNode ''name'' of
        Inl e \<Rightarrow> Inl e
      | Inr None \<Rightarrow> Inl NilDereference
      | Inr (Some nameNode) \<Rightarrow>
          (case findFieldByName (Content existingFieldsNode) (Value' nameNode) of
             Inl e \<Rightarrow> Inl e
           | Inr None \<Rightarrow>
               mergeFieldsLoop
                 (setContent existingFieldsNode (Content existingFieldsNode @ [newFieldNode])) rest
           | Inr (Some existingFieldNode) \<Rightarrow> mergeFieldsLoop existingFieldsNode rest))"

definition mergeFields :: "node \<Rightarrow> node \<Rightarrow> error + node" where
  "mergeFields existingFieldsNode newFieldsNode =
     mergeFieldsLoop existingFieldsNode (Content newFieldsNode)"

fun mergeEditorLoop :: "node \<Rightarrow> node list \<Rightarrow> error + node" where
  "mergeEditorLoop existingEditorNode [] = Inr existingEditorNode"
| "mergeEditorLoop existingEditorNode [k] = Inl IndexOutOfRange"
| "mergeEditorLoop existingEditorNode (k # value # rest) =
     (case findFieldInNode existingEditorNode (Value' k) of
        Inl e \<Rightarrow> Inl e
      | Inr None \<Rightarrow>
          mergeEditorLoop
            (setContent existingEditorNode (Content existingEditorNode @ [k, value])) rest
      | Inr (Some existingValue) \<Rightarrow> mergeEditorLoop existingEditorNode rest)"

definition mergeEditor :: "node \<Rightarrow> node \<Rightarrow> error + node" where
  "mergeEditor existingEditorNode newEditorNode =
     mergeEditorLoop existingEditorNode (Content newEditorNode)"

text \<open>The loop of \<^verbatim>\<open>mergeCollectionFields\<close> over the keys and values in
  \<^verbatim>\<open>tempNode.Content[0].Content\<close>.\<close>

fun mergeLoop :: "node \<Rightarrow> node list \<Rightarrow> error + node" where
  "mergeLoop existingNode [] = Inr existingNode"
| "mergeLoop existingNode [k] = Inl IndexOutOfRange"
| "mergeLoop existingNode (k # value # rest) =
     (case findFieldInNode existingNode (Value' k) of
        Inl e \<Rightarrow> Inl e
      | Inr None \<Rightarrow> mergeLoop (setContent existingNode (Content existingNode @ [k, value])) rest
      | Inr (Some existingValue) \<Rightarrow>
          if Value' k = ''fields'' then
            (case mergeFields existingValue value of
               Inl e \<Rightarrow> Inl e
             | Inr merged \<Rightarrow>
                 mergeLoop (setContent existingNode
                              (storeField (Content existingNode) (Value' k) merged)) rest)
          else if Value' k = ''editor'' then
            (case mergeEditor existingValue value of
               Inl e \<Rightarrow> Inl e
             | Inr merged \<Rightarrow>
                 mergeLoop (setContent existingNode
                              (storeField (Content existingNode) (Value' k) merged)) rest)
          else mergeLoop existingNode rest)"

definition mergeCollectionFields :: "node \<Rightarrow> Collection \<Rightarrow> error + node" where
  "mergeCollectionFields existingNode newColl =
     (let tempNode = Encode_Collection newColl
      in case findFieldInNode existingNode decaptaIDField of
           Inl e \<Rightarrow> Inl e
         | Inr idFieldValue \<Rightarrow>
             (let existingNode1 =
                    (if idFieldValue = None \<and> IdentifierField newColl \<noteq> []
                     then setContent existingNode
                            (Content existingNode @
                             [Node ScalarNode [] decaptaIDField [],
                              Node ScalarNode [] (IdentifierField newColl) []])
                     else existingNode)
              in case Content tempNode of
                   [] \<Rightarrow> Inl IndexOutOfRange
                 | first # _ \<Rightarrow> mergeLoop existingNode1 (Content first)))"

text \<open>The inner loop of \<^verbatim>\<open>upsertCollections\<close> over the existing entries: \<open>None\<close> when no
  entry has the folder of the descriptor (\<^verbatim>\<open>upserted\<close> stays false), else the entries with
  the first such entry merged.\<close>

fun upsertScan :: "node list \<Rightarrow> Collection \<Rightarrow> error + node list option" where
  "upsertScan [] newColl = Inr None"
| "upsertScan (existingNode # rest) newColl =
     (if Decode_Folder existingNode = Folder newColl
      then (case mergeCollectionFields existingNode newColl of
              Inl e \<Rightarrow> Inl e
            | Inr merged \<Rightarrow> Inr (Some (merged # rest)))
      else (case upsertScan rest newColl of
              Inl e \<Rightarrow> Inl e
            | Inr None \<Rightarrow> Inr None
            | Inr (Some rest') \<Rightarrow> Inr (Some (existingNode # rest'))))"

fun upsertCollections :: "node \<Rightarrow> Collection list \<Rightarrow> error + node" where
  "upsertCollections collectionsNode [] = Inr collectionsNode"
| "upsertCollections collectionsNode (newColl # collections) =
     (case upsertScan (Content collectionsNode) newColl of
        Inl e \<Rightarrow> Inl e
      | Inr (Some content') \<Rightarrow>
          upsertCollections (setContent collectionsNode content') collections
      | Inr None \<Rightarrow>
          upsertCollections
            (setContent collectionsNode (Content collectionsNode @ [Encode_Collection newColl]))
            collections)"

text \<open>The tree part of \<^verbatim>\<open>writeCollections\<close>: \<^verbatim>\<open>findOrCreateCollectionsNode\<close>, then
  \<^verbatim>\<open>upsertCollections\<close> on the node found or created. \<^verbatim>\<open>rootNode.Content[0]\<close> panics on a
  document without content.\<close>

definition synchronize :: "node \<Rightarrow> Collection list \<Rightarrow> error + node" where
  "synchronize rootNode collections =
     (case Content rootNode of
        [] \<Rightarrow> Inl IndexOutOfRange
      | topNode # others \<Rightarrow>
          (case findField (Content topNode) ''collections'' of
             Inl e \<Rightarrow> Inl e
           | Inr (Some collectionsNode) \<Rightarrow>
               (case upsertCollections collectionsNode collections of
                  Inl e \<Rightarrow> Inl e
                | Inr collectionsNode' \<Rightarrow>
                    Inr (setContent rootNode
                           (setContent topNode (storeField (Content topNode) ''collections'' collectionsNode')
                            # others)))
           | Inr None \<Rightarrow>
               (case upsertCollections (Node SequenceNode ''!!seq'' [] []) collections of
                  Inl e \<Rightarrow> Inl e
                | Inr collectionsNode' \<Rightarrow>
                    Inr (setContent rootNode
                           (setContent topNode
                              (Content topNode @
                               [Node ScalarNode [] ''collections'' [], collectionsNode'])
                            # others)))))"



section \<open>csv.go and arb.go: the descriptors\<close>

text \<open>\<^verbatim>\<open>strings.ToLower\<close> and \<^verbatim>\<open>strings.ToUpper\<close> on ASCII letters. (For the comparison with
  \<^verbatim>\<open>true\<close>, \<^verbatim>\<open>false\<close>, \<^verbatim>\<open>yes\<close> and \<^verbatim>\<open>no\<close> only ASCII letters matter.)\<close>

definition ToLower :: "string \<Rightarrow> string" where
  "ToLower s = map (\<lambda>c. if CHR ''A'' \<le> c \<and> c \<le> CHR ''Z'' then char_of (of_char c + (32::nat)) else c) s"

definition ToUpper :: "string \<Rightarrow> string" where
  "ToUpper s = map (\<lambda>c. if CHR ''a'' \<le> c \<and> c \<le> CHR ''z'' then char_of (of_char c - (32::nat)) else c) s"

text \<open>\<^verbatim>\<open>detectFieldType\<close>. Whether a cell parses as a float (\<^verbatim>\<open>strconv.ParseFloat\<close>) and as a
  date (\<^verbatim>\<open>time.Parse\<close> with the five layouts of \<^verbatim>\<open>parseDate\<close>) is decided by the standard
  library; the two tests are parameters.\<close>

definition detectStep ::
  "(string \<Rightarrow> bool) \<Rightarrow> (string \<Rightarrow> bool) \<Rightarrow> nat \<Rightarrow> string list \<Rightarrow>
   bool \<times> bool \<times> bool \<times> bool \<Rightarrow> bool \<times> bool \<times> bool \<times> bool" where
  "detectStep parsesFloat parsesDate colIndex record flags =
     (case flags of (isMultilineText, isFloat, isBoolean, isDate) \<Rightarrow>
        if colIndex \<ge> length record then flags
        else (let value = record ! colIndex;
                  lowerValue = ToLower value
              in (isMultilineText \<or> CHR 0x0A \<in> set value,
                  isFloat \<and> parsesFloat value,
                  isBoolean \<and> \<not> (lowerValue \<noteq> ''true'' \<and> lowerValue \<noteq> ''false'' \<and>
                                   lowerValue \<noteq> ''yes'' \<and> lowerValue \<noteq> ''no''),
                  isDate \<and> parsesDate value)))"

definition detectFieldType ::
  "(string \<Rightarrow> bool) \<Rightarrow> (string \<Rightarrow> bool) \<Rightarrow> string list list \<Rightarrow> nat \<Rightarrow> string" where
  "detectFieldType parsesFloat parsesDate records colIndex =
     (case fold (detectStep parsesFloat parsesDate colIndex) records (False, True, True, True) of
        (isMultilineText, isFloat, isBoolean, isDate) \<Rightarrow>
          if isMultilineText then ''markdown''
          else if isBoolean then ''boolean''
          else if isDate then ''datetime''
          else if isFloat then ''number''
          else ''string'')"

text \<open>\<^verbatim>\<open>CSVGenerateConfig\<close> for one CSV file whose records have been read: the collection it
  appends, nothing for a file without records. \<open>csvContentDir\<close> is the joined path
  \<^verbatim>\<open>filepath.Join(contentDir, csvName)\<close>.\<close>

definition headerField ::
  "(string \<Rightarrow> bool) \<Rightarrow> (string \<Rightarrow> bool) \<Rightarrow> string list list \<Rightarrow> nat \<times> string \<Rightarrow> Field" where
  "headerField parsesFloat parsesDate rows ch =
     (case ch of (colIndex, header) \<Rightarrow>
        (let fieldType = detectFieldType parsesFloat parsesDate rows colIndex
         in Field header (addPrefixIfReserved header) fieldType
              (if fieldType = ''markdown'' then [''raw''] else [])
              [] False [] [] False None [] [] []))"

definition CSVGenerateConfig ::
  "(string \<Rightarrow> bool) \<Rightarrow> (string \<Rightarrow> bool) \<Rightarrow> string \<Rightarrow> string \<Rightarrow> string list list \<Rightarrow> Collection option" where
  "CSVGenerateConfig parsesFloat parsesDate csvName csvContentDir records =
     (case records of
        [] \<Rightarrow> None
      | headers # rows \<Rightarrow>
          Some \<lparr>Name = ''csv_'' @ csvName,
                Label = ''CSV Data ('' @ csvName @ '')'',
                Folder = csvContentDir,
                Create = True,
                Slug = ''{{slug}}'',
                IdentifierField = decaptaIDField,
                Format = ''yaml'',
                Extension = ''yaml'',
                Editor = \<lparr>Preview = False\<rparr>,
                Files = [],
                Fields = Field ''Decapta ID'' decaptaIDField ''string'' [] [] False [] [] True
                               None [] [] []
                         # map (headerField parsesFloat parsesDate rows) (enumerate 0 headers)\<rparr>)"

text \<open>The collection that \<^verbatim>\<open>ARBGenerateConfig\<close> builds for a language, with the fields it
  has collected from the content file \<open>contentFile\<close>.\<close>

definition ARBCollection :: "string \<Rightarrow> string \<Rightarrow> Field list \<Rightarrow> Collection" where
  "ARBCollection language contentFile translationFields =
     \<lparr>Name = ''translations_'' @ language,
      Label = ''Translations ('' @ ToUpper language @ '')'',
      Folder = [], Create = False, Slug = [], IdentifierField = [], Format = [], Extension = [],
      Editor = \<lparr>Preview = False\<rparr>,
      Files = [\<lparr>File_Name = ''translation_'' @ language,
                 File_Label = ''Translation ('' @ ToUpper language @ '')'',
                 File_File = contentFile,
                 File_Fields = translationFields\<rparr>],
      Fields = []\<rparr>"

text \<open>The collection entries of a configuration document.\<close>

definition collectionsOf :: "node \<Rightarrow> node list" where
  "collectionsOf rootNode =
     (case Content rootNode of
        [] \<Rightarrow> []
      | topNode # _ \<Rightarrow>
          (case findField (Content topNode) ''collections'' of
             Inr (Some collectionsNode) \<Rightarrow> Content collectionsNode
           | _ \<Rightarrow> []))"


section \<open>Relations between configuration trees\<close>

text \<open>\<open>extends old new\<close>: every node of \<open>old\<close> is in \<open>new\<close> at the same place with the
  same kind, tag and value, and every list of children of \<open>old\<close> is continued, not changed
  or shortened, in \<open>new\<close>.\<close>

fun extends :: "node \<Rightarrow> node \<Rightarrow> bool"
  and extendsList :: "node list \<Rightarrow> node list \<Rightarrow> bool" where
  "extends (Node k t v cs) (Node k' t' v' cs') =
     (k = k' \<and> t = t' \<and> v = v' \<and> extendsList cs cs')"
| "extendsList [] cs' = True"
| "extendsList (c # cs) [] = False"
| "extendsList (c # cs) (c' # cs') = (extends c c' \<and> extendsList cs cs')"

text \<open>A configuration document as the parser builds it from a file whose root is a mapping
  and whose collection entries are mappings or scalars: the top-level node and every
  collection entry have an even number of children.\<close>

definition pairedConfig :: "node \<Rightarrow> bool" where
  "pairedConfig rootNode =
     (case Content rootNode of
        [] \<Rightarrow> False
      | topNode # _ \<Rightarrow>
          even (length (Content topNode)) \<and>
          list_all (\<lambda>existingNode. even (length (Content existingNode))) (collectionsOf rootNode))"

text \<open>A descriptor is settled in a list of entries when the first entry with its folder
  exists and holds the key \<^verbatim>\<open>slug\<close> if the descriptor names an identifier field.\<close>

fun settled :: "node list \<Rightarrow> Collection \<Rightarrow> bool" where
  "settled [] newColl = False"
| "settled (existingNode # rest) newColl =
     (if Decode_Folder existingNode = Folder newColl
      then IdentifierField newColl = [] \<or>
           (case findFieldInNode existingNode decaptaIDField of
              Inr (Some idFieldValue) \<Rightarrow> True
            | _ \<Rightarrow> False)
      else settled rest newColl)"

section \<open>Auxiliary notions for the merge\<close>

text \<open>The entry with the pair that \<^verbatim>\<open>mergeCollectionFields\<close> appends when the identifier
  attribute is missing.\<close>

definition addSlug :: "node \<Rightarrow> Collection \<Rightarrow> node" where
  "addSlug existingNode newColl =
     setContent existingNode
       (Content existingNode @
        [Node ScalarNode [] decaptaIDField [], Node ScalarNode [] (IdentifierField newColl) []])"

text \<open>\<open>keeps e e'\<close>: node \<open>e'\<close> is node \<open>e\<close> with children appended; the children that
  \<open>e\<close> has are the first children of \<open>e'\<close>, unchanged. \<open>keepsAll\<close>: every entry of the
  first list is kept by the entry at its place in the second.\<close>

definition keeps :: "node \<Rightarrow> node \<Rightarrow> bool" where
  "keeps existingNode resultNode =
     (Kind resultNode = Kind existingNode \<and> Tag resultNode = Tag existingNode \<and>
      Value' resultNode = Value' existingNode \<and>
      length (Content existingNode) \<le> length (Content resultNode) \<and>
      take (length (Content existingNode)) (Content resultNode) = Content existingNode)"

definition keepsAll :: "node list \<Rightarrow> node list \<Rightarrow> bool" where
  "keepsAll S S' = (length S \<le> length S' \<and> list_all2 keeps S (take (length S) S'))"

text \<open>The keys of a list of children are new: pairwise different and none of them among
  the keys seen.\<close>

definition freshKeys :: "(kind \<times> string) set \<Rightarrow> node list \<Rightarrow> bool" where
  "freshKeys seen cs =
     (distinct (map (\<lambda>k. (Kind k, Value' k)) (keysOf cs)) \<and>
      (\<forall>k\<in>set (keysOf cs). (Kind k, Value' k) \<notin> seen))"

text \<open>A descriptor as \<^verbatim>\<open>CSVGenerateConfig\<close> builds it, and a small configuration document
  with one hand-written collection entry for the same folder.\<close>

definition exampleCollection :: Collection where
  "exampleCollection =
     \<lparr>Name = ''csv_people'', Label = ''CSV Data (people)'', Folder = ''content/people'',
      Create = True, Slug = ''{{slug}}'', IdentifierField = ''slug'', Format = ''yaml'',
      Extension = ''yaml'', Editor = \<lparr>Preview = False\<rparr>, Files = [],
      Fields = [Field ''Decapta ID'' ''slug'' ''string'' [] [] False [] [] True None [] [] [],
                Field ''name'' ''name'' ''string'' [] [] False [] [] False None [] [] []]\<rparr>"

definition exampleEntry :: node where
  "exampleEntry =
     mapNode (strPair ''name'' ''people'' @ strPair ''label'' ''My people'' @
              strPair ''folder'' ''content/people'' @ strPair ''note'' ''kept by hand'')"

definition exampleEntrySlug :: node where
  "exampleEntrySlug =
     mapNode (strPair ''name'' ''people'' @ strPair ''label'' ''My people'' @
              strPair ''folder'' ''content/people'' @ strPair ''note'' ''kept by hand'' @
              [Node ScalarNode [] ''slug'' [], Node ScalarNode [] ''slug'' []])"

definition exampleConfig :: "node \<Rightarrow> node" where
  "exampleConfig entry =
     Node DocumentNode [] []
       [mapNode (strPair ''media_folder'' ''static'' @ [strNode ''collections'', seqNode [entry]])]"

text \<open>The table \<^verbatim>\<open>name,data\<close> / \<^verbatim>\<open>Alice,x\<close> / \<^verbatim>\<open>Bob,y\<close> as the CSV reader returns it.\<close>

definition scenarioTable :: "string list list" where
  "scenarioTable = [[''name'', ''data''], [''Alice'', ''x''], [''Bob'', ''y'']]"

section \<open>Reserved-name prefixing\<close>

lemma HasPrefix_append: "HasPrefix (p @ s) p"
  by (simp add: HasPrefix_def)

lemma TrimPrefix_append: "TrimPrefix (p @ s) p = s"
  by (simp add: TrimPrefix_def HasPrefix_def)

text \<open>Claim C6. Reserved-name prefixing is a bijection on the reserved set and the identity
  elsewhere: for every reserved field name, removing the prefix after adding it gives the
  name back, and for every name that is not reserved \<^verbatim>\<open>addPrefixIfReserved\<close> returns the
  name unchanged.\<close>

theorem reserved_prefix_roundtrip:
  "(reservedFields name \<longrightarrow> removePrefixIfReserved (addPrefixIfReserved name) = name) \<and>
   (\<not> reservedFields name \<longrightarrow> addPrefixIfReserved name = name)"
  by (simp add: addPrefixIfReserved_def removePrefixIfReserved_def HasPrefix_append
      TrimPrefix_append)

theorem reserved_prefix_roundtrip_witness:
  "reservedFields ''data'' \<and> removePrefixIfReserved (addPrefixIfReserved ''data'') = ''data'' \<and>
   \<not> reservedFields ''name'' \<and> addPrefixIfReserved ''name'' = ''name''"
  using reserved_prefix_roundtrip [of "''data''"] reserved_prefix_roundtrip [of "''name''"]
  by (simp add: reservedFields_def)

section \<open>The identifier field\<close>

lemma slugParts_filter:
  "slugParts fmtv data fs = map (\<lambda>f. fmtv (the (data f))) (filter (\<lambda>f. data f \<noteq> None) fs)"
  by (induction fs) (auto split: option.splits)

text \<open>Claim C10. The synthesized identifier is the \<^verbatim>\<open>-\<close>-joined renderings of exactly the
  configured fields that the record holds, in configured order; absent fields are skipped
  without error, an empty configured list gives the empty identifier, and the identifier
  is stored in the per-entity document under the fixed key \<^verbatim>\<open>slug\<close>, replacing any cell a
  column of that name had put there.\<close>

theorem identifier_field_joined:
  "generateIdentifierField fmtv data fs =
     strings_Join (map (\<lambda>f. fmtv (the (data f))) (filter (\<lambda>f. f \<in> dom data) fs)) ''-'' \<and>
   generateIdentifierField fmtv data [] = [] \<and>
   rowDocument headers slugFields record decaptaIDField =
     Some (generateIdentifierField id (fillRow headers record Map.empty) slugFields) \<and>
   rowDocument headers [] record decaptaIDField = Some []"
  by (simp add: generateIdentifierField_def slugParts_filter rowDocument_def Let_def dom_def)

section \<open>The ordered document and the translation round trip\<close>

lemma mapStore_fresh: "k \<notin> fst ` set m \<Longrightarrow> mapStore k v m = m @ [(k, v)]"
  by (induction m) auto

lemma fold_store_append:
  "distinct (map fst m @ map kf xs) \<Longrightarrow>
   fold (\<lambda>x acc. mapStore (kf x) (vf x) acc) xs m = m @ map (\<lambda>x. (kf x, vf x)) xs"
proof (induction xs arbitrary: m)
  case Nil then show ?case by simp
next
  case (Cons x xs)
  have fresh: "kf x \<notin> fst ` set m" using Cons.prems by auto
  have "distinct (map fst (m @ [(kf x, vf x)]) @ map kf xs)" using Cons.prems by auto
  from Cons.IH[OF this] show ?case by (simp add: mapStore_fresh[OF fresh])
qed

lemma MarshalJSON_distinct:
  "distinct (map Key om) \<Longrightarrow> MarshalJSON om = sort_key fst (map (\<lambda>kv. (Key kv, Value kv)) om)"
  using fold_store_append[of "[]" Key om Value] by (simp add: MarshalJSON_def json_members_def)

lemma fold_store_filter:
  "distinct (map fst m @ map kf xs) \<Longrightarrow>
   fold (\<lambda>x acc. if P x then acc else mapStore (kf x) (vf x) acc) xs m
     = m @ map (\<lambda>x. (kf x, vf x)) (filter (\<lambda>x. \<not> P x) xs)"
proof (induction xs arbitrary: m)
  case Nil then show ?case by simp
next
  case (Cons x xs)
  show ?case
  proof (cases "P x")
    case True
    have "distinct (map fst m @ map kf xs)" using Cons.prems by auto
    from Cons.IH[OF this] True show ?thesis by simp
  next
    case False
    have fresh: "kf x \<notin> fst ` set m" using Cons.prems by auto
    have "distinct (map fst (m @ [(kf x, vf x)]) @ map kf xs)" using Cons.prems by auto
    from Cons.IH[OF this] False show ?thesis by (simp add: mapStore_fresh[OF fresh])
  qed
qed

lemma ARBPreProcess_distinct:
  "distinct (map Key om) \<Longrightarrow>
   ARBPreProcess om = map (\<lambda>kv. (Key kv, Dict (translationEntry om kv)))
                        (filter (\<lambda>kv. \<not> HasPrefix (Key kv) ''@'') om)"
  unfolding ARBPreProcess_def
  using fold_store_filter[of "[]" Key om "\<lambda>kv. HasPrefix (Key kv) ''@''" "\<lambda>kv. Dict (translationEntry om kv)"]
  by simp

lemma arbEntries_emitted:
  "\<forall>k\<in>set keys. \<exists>e. mapLookup fm k = Some (Dict e) \<Longrightarrow>
   arbEntries fm keys acc = Inr (acc @ concat (map (emitted fm) keys))"
proof (induction keys arbitrary: acc)
  case Nil then show ?case by simp
next
  case (Cons k keys)
  then obtain e where e: "mapLookup fm k = Some (Dict e)" by auto
  have rest: "\<forall>k\<in>set keys. \<exists>e. mapLookup fm k = Some (Dict e)" using Cons.prems by simp
  show ?case
    using e Cons.IH[OF rest]
    by (simp add: emitted_def Let_def split: option.splits)
qed

lemma translationEntry_lookups:
  "mapLookup (translationEntry om kv) ''value'' = Some (Value kv)"
  "mapLookup (translationEntry om kv) ''metadata'' = Get om (''@'' @ Key kv)"
  by (simp_all add: translationEntry_def mapLookup_def Let_def split: option.splits)

lemma lookup_pre:
  assumes d: "distinct (map Key om)" and kv: "kv \<in> set om" and na: "\<not> HasPrefix (Key kv) ''@''"
  shows "mapLookup (ARBPreProcess om) (Key kv) = Some (Dict (translationEntry om kv))"
proof -
  let ?xs = "filter (\<lambda>kv. \<not> HasPrefix (Key kv) ''@'') om"
  let ?fm = "map (\<lambda>kv. (Key kv, Dict (translationEntry om kv))) ?xs"
  have "distinct (map fst ?fm)"
    using d by (simp add: comp_def distinct_map_filter)
  moreover have "(Key kv, Dict (translationEntry om kv)) \<in> set ?fm" using kv na by auto
  ultimately have "map_of ?fm (Key kv) = Some (Dict (translationEntry om kv))" by simp
  then show ?thesis by (simp add: ARBPreProcess_distinct[OF d] mapLookup_def)
qed

lemma emitted_pre:
  assumes d: "distinct (map Key om)" and kv: "kv \<in> set om" and na: "\<not> HasPrefix (Key kv) ''@''"
  shows "emitted (ARBPreProcess om) (Key kv) = outOf om kv"
  by (simp add: emitted_def lookup_pre[OF assms] translationEntry_lookups outOf_def)

lemma Get_map_of: "Get om k = map_of (map (\<lambda>kv. (Key kv, Value kv)) om) k"
  by (induction om) auto

lemma Get_Some_iff:
  "distinct (map Key om) \<Longrightarrow> Get om k = Some v \<longleftrightarrow> KVPair k v \<in> set om"
proof -
  assume d: "distinct (map Key om)"
  have "distinct (map fst (map (\<lambda>kv. (Key kv, Value kv)) om))" using d by (simp add: comp_def)
  then have "map_of (map (\<lambda>kv. (Key kv, Value kv)) om) k = Some v
             \<longleftrightarrow> (k, v) \<in> set (map (\<lambda>kv. (Key kv, Value kv)) om)" by simp
  also have "\<dots> \<longleftrightarrow> KVPair k v \<in> set om"
    by (force simp: image_iff)
  finally show ?thesis by (simp add: Get_map_of)
qed

lemma HasPrefix_at: "HasPrefix s ''@'' \<longleftrightarrow> (\<exists>r. s = CHR ''@'' # r)"
  by (cases s) (auto simp: HasPrefix_def)

lemma emitted_keys:
  "distinct (map Key (emitted fm k))" "set (map Key (emitted fm k)) \<subseteq> {k, CHR ''@'' # k}"
  by (auto simp: emitted_def split: option.splits val.splits)

lemma keys_emitted_distinct:
  assumes "distinct ks" and "\<forall>k\<in>set ks. \<not> HasPrefix k ''@''"
  shows "distinct (map Key (concat (map (emitted fm) ks)))"
  using assms
proof (induction ks)
  case Nil then show ?case by simp
next
  case (Cons x xs)
  define R where "R = map Key (concat (map (emitted fm) xs))"
  define H where "H = map Key (emitted fm x)"
  have in_rest: "\<exists>y\<in>set xs. k = y \<or> k = CHR ''@'' # y" if "k \<in> set R" for k
  proof -
    from that obtain y where "y \<in> set xs" "k \<in> set (map Key (emitted fm y))"
      unfolding R_def by auto
    then show ?thesis using emitted_keys(2)[of fm y] by blast
  qed
  have nx: "\<not> HasPrefix x ''@''" using Cons.prems by simp
  have a: "x \<notin> set R"
  proof
    assume "x \<in> set R"
    from in_rest[OF this] obtain y where "y \<in> set xs" "x = y \<or> x = CHR ''@'' # y" by blast
    then show False using Cons.prems nx by (auto simp: HasPrefix_at)
  qed
  have b: "CHR ''@'' # x \<notin> set R"
  proof
    assume "CHR ''@'' # x \<in> set R"
    from in_rest[OF this] obtain y where "y \<in> set xs" "CHR ''@'' # x = y \<or> CHR ''@'' # x = CHR ''@'' # y" by blast
    then show False using Cons.prems by (auto simp: HasPrefix_at dest: sym)
  qed
  have ih: "distinct R" using Cons unfolding R_def by simp
  have hd: "distinct H" "set H \<subseteq> {x, CHR ''@'' # x}"
    unfolding H_def by (rule emitted_keys)+
  have disj: "set H \<inter> set R = {}"
    using a b hd(2) by blast
  have "map Key (concat (map (emitted fm) (x # xs))) = H @ R"
    unfolding H_def R_def by simp
  then show ?case using hd(1) ih disj by (simp only: distinct_append)
qed

lemma sort_key_unique:
  assumes dx: "distinct (map f xs)" and dy: "distinct (map f ys)" and s: "set xs = set ys"
  shows "sort_key f xs = sort_key f ys"
proof (rule map_sorted_distinct_set_unique[of f])
  have ix: "inj_on f (set xs)" using dx by (simp add: distinct_map)
  show "inj_on f (set (sort_key f xs) \<union> set (sort_key f ys))" using ix s by simp
  show "sorted (map f (sort_key f xs))" "sorted (map f (sort_key f ys))" by simp_all
  show "distinct (map f (sort_key f xs))" using dx by (simp add: distinct_map)
  show "distinct (map f (sort_key f ys))" using dy by (simp add: distinct_map)
  show "set (sort_key f xs) = set (sort_key f ys)" using s by simp
qed

lemma arb_roundtrip:
  assumes d: "distinct (map Key om)"
  shows "ARBPostProcess (ARBPreProcess om) = Inr (sort_key fst (map pairOf (filter (arbKept om) om)))"
proof -
  define xs where "xs = filter (\<lambda>kv. \<not> HasPrefix (Key kv) ''@'') om"
  define fm where "fm = ARBPreProcess om"
  define ks where "ks = getOrderedKeys fm"
  define out where "out = concat (map (emitted fm) ks)"
  have fm_eq: "fm = map (\<lambda>kv. (Key kv, Dict (translationEntry om kv))) xs"
    unfolding fm_def xs_def by (rule ARBPreProcess_distinct[OF d])
  have ks_set: "set ks = Key ` set xs"
    unfolding ks_def getOrderedKeys_def fm_eq by (simp add: comp_def)
  have dxs: "distinct (map Key xs)" unfolding xs_def using d by (simp add: distinct_map_filter)
  have ks_dist: "distinct ks"
    unfolding ks_def getOrderedKeys_def fm_eq using dxs by (simp add: comp_def)
  have ks_na: "\<forall>k\<in>set ks. \<not> HasPrefix k ''@''" unfolding ks_set xs_def by auto
  have look: "\<forall>k\<in>set ks. \<exists>e. mapLookup fm k = Some (Dict e)"
    unfolding ks_set fm_def xs_def using lookup_pre[OF d] by auto
  have ent: "arbEntries fm ks [] = Inr out"
    unfolding out_def using arbEntries_emitted[OF look, of "[]"] by simp
  have dout: "distinct (map Key out)"
    unfolding out_def by (rule keys_emitted_distinct[OF ks_dist ks_na])
  have out_set: "set out = (\<Union>kv\<in>set xs. set (outOf om kv))"
  proof -
    have "set out = (\<Union>k\<in>set ks. set (emitted fm k))" unfolding out_def by simp
    also have "\<dots> = (\<Union>kv\<in>set xs. set (emitted fm (Key kv)))" unfolding ks_set by simp
    also have "\<dots> = (\<Union>kv\<in>set xs. set (outOf om kv))"
      using emitted_pre[OF d] unfolding fm_def xs_def by simp
    finally show ?thesis .
  qed
  have set_eq: "set out = set (filter (arbKept om) om)"
  proof (rule set_eqI)
    fix kv
    show "kv \<in> set out \<longleftrightarrow> kv \<in> set (filter (arbKept om) om)"
    proof
      assume "kv \<in> set out"
      then obtain p where p: "p \<in> set xs" "kv \<in> set (outOf om p)" unfolding out_set by blast
      have pin: "p \<in> set om" "\<not> HasPrefix (Key p) ''@''" using p(1) unfolding xs_def by auto
      from p(2) consider "kv = KVPair (Key p) (Value p)"
        | m where "Get om (CHR ''@'' # Key p) = Some m" "kv = KVPair (CHR ''@'' # Key p) m"
        by (cases "Get om (CHR ''@'' # Key p)") (auto simp: outOf_def)
      then show "kv \<in> set (filter (arbKept om) om)"
      proof cases
        case 1
        then have "kv = p" by simp
        then show ?thesis using pin by (auto simp: arbKept_def HasPrefix_at split: list.splits)
      next
        case 2
        then have "kv \<in> set om" using Get_Some_iff[OF d] by simp
        moreover have "arbKept om kv" using 2 pin by (auto simp: arbKept_def)
        ultimately show ?thesis by simp
      qed
    next
      assume "kv \<in> set (filter (arbKept om) om)"
      then have kin: "kv \<in> set om" and kept: "arbKept om kv" by auto
      show "kv \<in> set out"
      proof (cases "HasPrefix (Key kv) ''@''")
        case False
        then have "kv \<in> set xs" using kin unfolding xs_def by simp
        moreover have "kv \<in> set (outOf om kv)" by (simp add: outOf_def)
        ultimately show ?thesis unfolding out_set by blast
      next
        case True
        then obtain r where r: "Key kv = CHR ''@'' # r" by (auto simp: HasPrefix_at)
        with kept have rn: "\<not> HasPrefix r ''@''" and "r \<in> Key ` set om"
          by (auto simp: arbKept_def)
        then obtain p where p: "p \<in> set om" "Key p = r" by auto
        then have pxs: "p \<in> set xs" using rn unfolding xs_def by simp
        have "kv = KVPair (CHR ''@'' # r) (Value kv)" using r by (cases kv) simp
        then have "Get om (CHR ''@'' # Key p) = Some (Value kv)"
          using Get_Some_iff[OF d, of "CHR ''@'' # r" "Value kv"] kin p(2) by simp
        then have "kv \<in> set (outOf om p)" using r p(2) by (cases kv) (simp add: outOf_def)
        then show ?thesis using pxs unfolding out_set by blast
      qed
    qed
  qed
  have dk: "distinct (map Key (filter (arbKept om) om))" using d by (simp add: distinct_map_filter)
  have "MarshalJSON out = sort_key fst (map pairOf out)"
    using MarshalJSON_distinct[OF dout] by (simp add: pairOf_def[abs_def])
  also have "\<dots> = sort_key fst (map pairOf (filter (arbKept om) om))"
  proof (rule sort_key_unique)
    have "fst \<circ> pairOf = (Key :: 'a val KVPair \<Rightarrow> string)" by (auto simp: pairOf_def)
    then show "distinct (map fst (map pairOf out))"
      "distinct (map fst (map pairOf (filter (arbKept om) om)))"
      using dout dk by simp_all
    show "set (map pairOf out) = set (map pairOf (filter (arbKept om) om))"
      using set_eq by simp
  qed
  finally have "MarshalJSON out = sort_key fst (map pairOf (filter (arbKept om) om))" .
  then show ?thesis
    using ent unfolding ARBPostProcess_def fm_def[symmetric] ks_def[symmetric] by simp
qed

lemma mapStore_keys: "fst ` set (mapStore k v m) = insert k (fst ` set m)"
  by (induction k v m rule: mapStore.induct) auto

lemma mapStore_distinct: "distinct (map fst m) \<Longrightarrow> distinct (map fst (mapStore k v m))"
  by (induction k v m rule: mapStore.induct) (auto simp: mapStore_keys)

lemma fold_mapStore_distinct:
  "distinct (map fst m) \<Longrightarrow>
   distinct (map fst (fold (\<lambda>kv tempMap. mapStore (Key kv) (Value kv) tempMap) om m))"
  by (induction om arbitrary: m) (auto simp: mapStore_distinct)

lemma MarshalJSON_sorted: "sorted (map fst (MarshalJSON om)) \<and> distinct (map fst (MarshalJSON om))"
proof -
  have "distinct (map fst (fold (\<lambda>kv tempMap. mapStore (Key kv) (Value kv) tempMap) om []))"
    by (rule fold_mapStore_distinct) simp
  then show ?thesis by (simp add: MarshalJSON_def json_members_def distinct_map)
qed

lemma arbEntries_lookup_cong:
  "(\<And>k. mapLookup fm k = mapLookup fm' k) \<Longrightarrow> arbEntries fm ks acc = arbEntries fm' ks acc"
  by (induction ks arbitrary: acc) (auto split: option.splits val.splits simp: Let_def)

lemma ARBPostProcess_order_irrelevant:
  assumes "distinct (map fst fm)" "distinct (map fst fm')" "set fm = set fm'"
  shows "ARBPostProcess fm = ARBPostProcess fm'"
proof -
  have "map_of fm = map_of fm'" using assms by (simp add: map_of_inject_set)
  then have l: "\<And>k. mapLookup fm k = mapLookup fm' k" by (simp add: mapLookup_def)
  have "set (map fst fm) = set (map fst fm')" using assms(3) by simp
  then have "sort (map fst fm) = sort (map fst fm')"
    using assms(1,2) by (intro sorted_distinct_set_unique) simp_all
  then show ?thesis
    using arbEntries_lookup_cong[OF l] by (simp add: ARBPostProcess_def getOrderedKeys_def)
qed




text \<open>Claim C1. Serializing an ordered document should write the entries in construction
  order. \<^verbatim>\<open>MarshalJSON\<close> copies the entries into a Go map and serializes the map, so the
  members come out sorted by key: the document built as \<^verbatim>\<open>b, a\<close> is written as \<^verbatim>\<open>a, b\<close>.\<close>

theorem MarshalJSON_sorts_members:
  "MarshalJSON [KVPair ''b'' (Atom ''1''), KVPair ''a'' (Atom ''2'')]
     = [(''a'', Atom ''2''), (''b'', Atom ''1'')]"
  by (simp add: MarshalJSON_def json_members_def)

section \<open>File numbers and the table round trip\<close>

lemma parseDigits_append:
  "parseDigits (xs @ ys) a = (case parseDigits xs a of None \<Rightarrow> None | Some m \<Rightarrow> parseDigits ys m)"
  by (induction xs arbitrary: a) auto

lemma digitChar_props:
  assumes "d < 10"
  shows "isDigit (digitChar d)" "digitVal (digitChar d) = d"
    "digitChar d \<noteq> CHR ''-''" "digitChar d \<noteq> CHR ''+''" "digitChar d \<noteq> CHR ''.''"
proof -
  have oc: "of_char (digitChar d) = (48 + d :: nat)"
    using assms by (simp add: digitChar_def)
  show "isDigit (digitChar d)" using assms oc by (simp add: isDigit_def less_eq_char_def)
  show "digitVal (digitChar d) = d" using oc by (simp add: digitVal_def)
  have "of_char (digitChar d) \<noteq> (of_char CHR ''-'' :: nat)" using oc by simp
  then show "digitChar d \<noteq> CHR ''-''" by metis
  have "of_char (digitChar d) \<noteq> (of_char CHR ''+'' :: nat)" using oc by simp
  then show "digitChar d \<noteq> CHR ''+''" by metis
  have "of_char (digitChar d) \<noteq> (of_char CHR ''.'' :: nat)" using oc by simp
  then show "digitChar d \<noteq> CHR ''.''" by metis
qed

lemma parseDigits_decimal: "parseDigits (decimal n) 0 = Some n"
proof (induction n rule: decimal.induct)
  case (1 n)
  show ?case
  proof (cases "n < 10")
    case True
    then show ?thesis by (subst decimal.simps) (simp add: digitChar_props)
  next
    case False
    then have ih: "parseDigits (decimal (n div 10)) 0 = Some (n div 10)" using 1 by simp
    have "n mod 10 < 10" by simp
    then show ?thesis using False ih
      by (subst decimal.simps) (simp add: parseDigits_append digitChar_props)
  qed
qed

lemma decimal_hd: "\<exists>d r. d < 10 \<and> decimal n = digitChar d # r"
proof (induction n rule: decimal.induct)
  case (1 n)
  show ?case
  proof (cases "n < 10")
    case True
    then show ?thesis by (subst decimal.simps) auto
  next
    case False
    then obtain d r where "d < 10" "decimal (n div 10) = digitChar d # r" using 1 by auto
    then show ?thesis using False by (subst decimal.simps) auto
  qed
qed

lemma Atoi_decimal: "n < 2 ^ 63 \<Longrightarrow> Atoi (decimal n) = Some (int n)"
proof -
  assume n: "n < 2 ^ 63"
  obtain d r where d: "d < 10" "decimal n = digitChar d # r" using decimal_hd by blast
  have "int n < 2 ^ 63" using n by (metis of_nat_less_iff of_nat_numeral of_nat_power)
  then show ?thesis
    using parseDigits_decimal[of n] d digitChar_props[OF d(1)]
    by (simp add: Atoi_def)
qed

lemma Ext_yaml: "Ext (s @ ''.yaml'') = ''.yaml''"
  by (simp add: Ext_def)

lemma extractFileNumber_decimal:
  "n < 2 ^ 63 \<Longrightarrow> extractFileNumber (decimal n @ ''.yaml'') = int n"
  by (simp add: extractFileNumber_def Ext_yaml TrimSuffix_def HasSuffix_def Atoi_decimal)

lemma sort_key_of_permutation:
  assumes srt: "sorted (map f xs)" and d: "distinct (map f xs)" and m: "mset ys = mset xs"
  shows "sort_key f ys = xs"
proof -
  have "mset (map f ys) = mset (map f xs)" using m by simp
  then have dy: "distinct (map f ys)" using d mset_eq_imp_distinct_iff by blast
  have "set ys = set xs" using m by (rule mset_eq_setD)
  then have "sort_key f ys = sort_key f xs" using dy d by (intro sort_key_unique) simp_all
  then show ?thesis using srt by (simp add: sort_key_id_if_sorted)
qed

lemma addPrefix_idem: "addPrefixIfReserved (addPrefixIfReserved h) = addPrefixIfReserved h"
  by (simp add: addPrefixIfReserved_def reservedFields_def decaptaPrefix_def)

lemma addPrefix_slug: "addPrefixIfReserved h = decaptaIDField \<longleftrightarrow> h = decaptaIDField"
  by (simp add: addPrefixIfReserved_def reservedFields_def decaptaPrefix_def decaptaIDField_def)

lemma removePrefix_addPrefix:
  "h \<noteq> ''decapta_data'' \<Longrightarrow> removePrefixIfReserved (addPrefixIfReserved h) = h"
proof -
  assume h: "h \<noteq> ''decapta_data''"
  show ?thesis
  proof (cases "reservedFields h")
    case True
    then show ?thesis by (simp add: addPrefixIfReserved_def removePrefixIfReserved_def HasPrefix_append TrimPrefix_append)
  next
    case False
    have "\<not> (HasPrefix h decaptaPrefix \<and> reservedFields (TrimPrefix h decaptaPrefix))"
    proof
      assume a: "HasPrefix h decaptaPrefix \<and> reservedFields (TrimPrefix h decaptaPrefix)"
      then have "h = decaptaPrefix @ drop (length decaptaPrefix) h"
        by (metis HasPrefix_def append_take_drop_id)
      moreover have "drop (length decaptaPrefix) h = ''data''"
        using a by (auto simp: TrimPrefix_def reservedFields_def)
      ultimately show False using h by (simp add: decaptaPrefix_def)
    qed
    then show ?thesis using False by (auto simp: addPrefixIfReserved_def removePrefixIfReserved_def)
  qed
qed

lemma addPrefix_inj:
  "a \<noteq> ''decapta_data'' \<Longrightarrow> b \<noteq> ''decapta_data'' \<Longrightarrow>
   addPrefixIfReserved a = addPrefixIfReserved b \<Longrightarrow> a = b"
  by (metis removePrefix_addPrefix)

lemma fillRow_other:
  "key \<notin> addPrefixIfReserved ` set hs \<Longrightarrow> fillRow hs vs data key = data key"
  by (induction hs vs data rule: fillRow.induct) auto

lemma fillRow_nth:
  "distinct (map addPrefixIfReserved hs) \<Longrightarrow> length vs = length hs \<Longrightarrow> i < length hs \<Longrightarrow>
   fillRow hs vs data (addPrefixIfReserved (hs ! i)) = Some (vs ! i)"
proof (induction hs vs data arbitrary: i rule: fillRow.induct)
  case (1 h hs v vs data)
  show ?case
  proof (cases i)
    case 0
    have "addPrefixIfReserved h \<notin> addPrefixIfReserved ` set hs" using "1.prems"(1) by auto
    then show ?thesis using 0 by (simp add: fillRow_other)
  next
    case (Suc j)
    have "fillRow hs vs (data(addPrefixIfReserved h \<mapsto> v)) (addPrefixIfReserved (hs ! j)) = Some (vs ! j)"
      using "1.prems" Suc by (intro "1.IH") auto
    then show ?thesis using Suc by simp
  qed
qed simp_all

lemma restore_row:
  assumes d: "distinct (map addPrefixIfReserved headers)" and l: "length r = length headers"
  shows "map (\<lambda>header. case rowDocument headers slugFields r (addPrefixIfReserved header) of
                         Some val \<Rightarrow> id val | None \<Rightarrow> [])
             (map addPrefixIfReserved headers)
         = restoredRow headers slugFields r"
proof (rule nth_equalityI)
  show "length (map (\<lambda>header. case rowDocument headers slugFields r (addPrefixIfReserved header) of
                         Some val \<Rightarrow> id val | None \<Rightarrow> [])
             (map addPrefixIfReserved headers)) = length (restoredRow headers slugFields r)"
    using l by (simp add: restoredRow_def)
next
  fix i
  assume "i < length (map (\<lambda>header. case rowDocument headers slugFields r (addPrefixIfReserved header) of
                         Some val \<Rightarrow> id val | None \<Rightarrow> [])
             (map addPrefixIfReserved headers))"
  then have i: "i < length headers" by simp
  have f: "fillRow headers r Map.empty (addPrefixIfReserved (headers ! i)) = Some (r ! i)"
    using fillRow_nth[OF d l i] .
  show "map (\<lambda>header. case rowDocument headers slugFields r (addPrefixIfReserved header) of
                         Some val \<Rightarrow> id val | None \<Rightarrow> [])
             (map addPrefixIfReserved headers) ! i = restoredRow headers slugFields r ! i"
    using i l f
    by (simp add: restoredRow_def addPrefix_idem rowDocument_def Let_def addPrefix_slug)
qed

lemma docs_numbers:
  assumes n: "length rows < 2 ^ 63"
  shows "map (\<lambda>file. extractFileNumber (fst file))
           (map (\<lambda>(i, record). (decimal (i + 1) @ ''.yaml'', g record)) (enumerate 0 rows))
         = map (\<lambda>i. int (Suc i)) [0..<length rows]"
proof (rule nth_equalityI)
  show "length (map (\<lambda>file. extractFileNumber (fst file))
           (map (\<lambda>(i, record). (decimal (i + 1) @ ''.yaml'', g record)) (enumerate 0 rows)))
        = length (map (\<lambda>i. int (Suc i)) [0..<length rows])" by simp
next
  fix i
  assume "i < length (map (\<lambda>file. extractFileNumber (fst file))
           (map (\<lambda>(i, record). (decimal (i + 1) @ ''.yaml'', g record)) (enumerate 0 rows)))"
  then have i: "i < length rows" by simp
  then have "Suc i < 2 ^ 63" using n by simp
  then show "map (\<lambda>file. extractFileNumber (fst file))
           (map (\<lambda>(i, record). (decimal (i + 1) @ ''.yaml'', g record)) (enumerate 0 rows)) ! i
        = map (\<lambda>i. int (Suc i)) [0..<length rows] ! i"
    using i extractFileNumber_decimal[of "Suc i"] by (simp add: nth_enumerate_eq)
qed

lemma docs_all_yaml:
  "yamlEntries csvName (map (\<lambda>(i, record). (decimal (i + 1) @ ''.yaml'', g record)) (enumerate 0 rows))
   = map (\<lambda>(i, record). (decimal (i + 1) @ ''.yaml'', g record)) (enumerate 0 rows)"
proof -
  have "HasSuffix (decimal k @ ''.yaml'') ''.yaml'' \<and> decimal k @ ''.yaml'' \<noteq> ''.'' @ csvName @ ''.yaml''" for k
  proof -
    obtain d r where d: "d < 10" "decimal k = digitChar d # r" using decimal_hd by blast
    then show ?thesis using digitChar_props(5)[OF d(1)] by (simp add: HasSuffix_def)
  qed
  then show ?thesis unfolding yamlEntries_def by (intro filter_True) auto
qed

lemma csv_roundtrip_aux:
  assumes dh: "distinct headers" and nd: "''decapta_data'' \<notin> set headers"
    and len: "\<forall>r\<in>set rows. length r = length headers" and n: "length rows < 2 ^ 63"
  shows "CSVRoundTrip csvName (headers # rows) slugFields =
           Some (headers # map (restoredRow headers slugFields) rows)"
proof -
  define docs where "docs = map (\<lambda>(i, record). (decimal (i + 1) @ ''.yaml'', rowDocument headers slugFields record)) (enumerate 0 rows)"
  define num where "num = (\<lambda>file :: string \<times> (string \<rightharpoonup> string). extractFileNumber (fst file))"
  have nums: "map num docs = map (\<lambda>i. int (Suc i)) [0..<length rows]"
    unfolding docs_def num_def by (rule docs_numbers[OF n])
  have s: "sorted (map num docs)" unfolding nums by (auto simp: sorted_iff_nth_mono)
  have d: "distinct (map num docs)" unfolding nums by (auto simp: distinct_map inj_on_def)
  have "sortSlice num (ReadDir docs) = docs"
    unfolding sortSlice_def ReadDir_def by (rule sort_key_of_permutation[OF s d]) simp
  moreover have "yamlEntries csvName docs = docs" unfolding docs_def by (rule docs_all_yaml)
  moreover have "map snd docs = map (rowDocument headers slugFields) rows"
    unfolding docs_def by (rule nth_equalityI) (auto simp: nth_enumerate_eq)
  moreover have "map removePrefixIfReserved (map addPrefixIfReserved headers) = headers"
  proof -
    have "map (removePrefixIfReserved \<circ> addPrefixIfReserved) headers = headers"
    proof (rule map_idI)
      fix x assume "x \<in> set headers"
      then have "x \<noteq> ''decapta_data''" using nd by blast
      then show "(removePrefixIfReserved \<circ> addPrefixIfReserved) x = x"
        using removePrefix_addPrefix[of x] by simp
    qed
    then show ?thesis by simp
  qed
  moreover have dp: "distinct (map addPrefixIfReserved headers)"
  proof -
    have "inj_on addPrefixIfReserved (set headers)"
    proof (rule inj_onI)
      fix x y assume "x \<in> set headers" "y \<in> set headers"
        and e: "addPrefixIfReserved x = addPrefixIfReserved y"
      then have "x \<noteq> ''decapta_data''" "y \<noteq> ''decapta_data''" using nd by blast+
      then show "x = y" using e by (rule addPrefix_inj)
    qed
    then show ?thesis using dh by (simp add: distinct_map)
  qed
  moreover define F where "F = (\<lambda>record :: string \<rightharpoonup> string.
       map (\<lambda>header. case record (addPrefixIfReserved header) of
                         Some val \<Rightarrow> id val | None \<Rightarrow> [])
           (map addPrefixIfReserved headers))"
  moreover have "map F (map (rowDocument headers slugFields) rows)
                 = map (restoredRow headers slugFields) rows"
  proof -
    have "F (rowDocument headers slugFields r) = restoredRow headers slugFields r"
      if "r \<in> set rows" for r
    proof -
      have "length r = length headers" using len that by blast
      from restore_row[OF dp this, of slugFields] show ?thesis unfolding F_def .
    qed
    then show ?thesis by simp
  qed
  moreover have "CSVPostProcess id csvName (map addPrefixIfReserved headers) (ReadDir docs)
      = map removePrefixIfReserved (map addPrefixIfReserved headers) #
        map F (map snd (yamlEntries csvName (sortSlice num (ReadDir docs))))"
    unfolding CSVPostProcess_def Let_def num_def F_def by (rule refl)
  ultimately have "CSVPostProcess id csvName (map addPrefixIfReserved headers) (ReadDir docs)
      = headers # map (restoredRow headers slugFields) rows"
    by (simp only:)
  then show ?thesis by (simp add: CSVRoundTrip_def CSVPreProcess_def docs_def)
qed

lemma sortSlice_contract:
  "mset (sortSlice num files) = mset files \<and> sorted (map num (sortSlice num files))"
  by (simp add: sortSlice_def)







section \<open>Synchronization of the configuration document\<close>

lemma Encode_Collection_first:
  "\<exists>rest. Content (Encode_Collection c) = strNode ''name'' # rest"
  by (simp add: Encode_Collection_def mapNode_def strPair_def)

lemma mergeCollectionFields_eq:
  "mergeCollectionFields e c =
     (case findField (Content e) decaptaIDField of
        Inl x \<Rightarrow> Inl x
      | Inr r \<Rightarrow> Inr (if r = None \<and> IdentifierField c \<noteq> [] then addSlug e c else e))"
proof -
  obtain rest where r: "Content (Encode_Collection c) = strNode ''name'' # rest"
    using Encode_Collection_first by blast
  show ?thesis
    by (simp add: mergeCollectionFields_def findFieldInNode_def Let_def r strNode_def addSlug_def
        split: sum.splits)
qed

lemma findField_even: "even (length cs) \<Longrightarrow> \<exists>r. findField cs key = Inr r"
  by (induction cs key rule: findField.induct) auto

lemma findField_append_found:
  "findField cs key = Inr (Some v) \<Longrightarrow> findField (cs @ ys) key = Inr (Some v)"
  by (induction cs key rule: findField.induct) (auto split: if_splits)

lemma findField_append_missing:
  "even (length cs) \<Longrightarrow> findField cs key = Inr None \<Longrightarrow>
   findField (cs @ ys) key = findField ys key"
  by (induction cs key rule: findField.induct) (auto split: if_splits)

lemma decodeStringField_append_other:
  "even (length cs) \<Longrightarrow> Value' k \<noteq> name \<Longrightarrow>
   decodeStringField (cs @ [k, v]) name = decodeStringField cs name"
  by (induction cs name rule: decodeStringField.induct) auto

lemma keysOf_append:
  "even (length cs) \<Longrightarrow> keysOf (cs @ ds) = keysOf cs @ keysOf ds"
  by (induction cs rule: keysOf.induct) auto

lemma findField_missing_keys:
  "even (length cs) \<Longrightarrow> findField cs key = Inr None \<Longrightarrow> \<forall>k\<in>set (keysOf cs). Value' k \<noteq> key"
  by (induction cs key rule: findField.induct) (auto split: if_splits)

lemma uniqueKeys_addSlug:
  assumes "even (length cs)" and "findField cs key = Inr None" and "Value' k = key"
  shows "uniqueKeys (cs @ [k, v]) = uniqueKeys cs"
proof -
  have "\<forall>x\<in>set (keysOf cs). (Kind x, Value' x) \<noteq> (Kind k, Value' k)"
    using findField_missing_keys[OF assms(1,2)] assms(3) by auto
  then show ?thesis by (auto simp: uniqueKeys_def keysOf_append[OF assms(1)])
qed

lemma Decode_Folder_addSlug:
  "even (length (Content e)) \<Longrightarrow> findField (Content e) decaptaIDField = Inr None \<Longrightarrow>
   Decode_Folder (addSlug e c) = Decode_Folder e"
  by (simp add: Decode_Folder_def addSlug_def setContent_def decodeStringField_append_other
      uniqueKeys_addSlug decaptaIDField_def)

lemma decode_strPair:
  "decodeStringField (strPair k s @ rest) name =
     (if k = name then s else decodeStringField rest name)"
  by (simp add: strPair_def strNode_def isNull_def)

lemma decode_optStr:
  "decodeStringField (optStr k s @ rest) name =
     (if k = name \<and> s \<noteq> [] then s else decodeStringField rest name)"
  by (simp add: optStr_def decode_strPair)

lemma decode_optBool:
  "k \<noteq> name \<Longrightarrow> decodeStringField (optBool k b @ rest) name = decodeStringField rest name"
  by (simp add: optBool_def strNode_def)

lemma decode_optNode:
  "k \<noteq> name \<Longrightarrow>
   decodeStringField ((if P then [strNode k, n] else []) @ rest) name = decodeStringField rest name"
  by (simp add: strNode_def)

lemma decode_optNode':
  "k \<noteq> name \<Longrightarrow>
   decodeStringField ((if P then [] else [strNode k, n]) @ rest) name = decodeStringField rest name"
  by (simp add: strNode_def)

lemma decode_optNode_last':
  "k \<noteq> name \<Longrightarrow> decodeStringField (if P then [] else [strNode k, n]) name = []"
  by (simp add: strNode_def)

lemma decode_optNode_last:
  "k \<noteq> name \<Longrightarrow> decodeStringField (if P then [strNode k, n] else []) name = []"
  by (simp add: strNode_def)

lemma freshKeys_pair:
  "(ScalarNode, k) \<notin> seen \<Longrightarrow> freshKeys (insert (ScalarNode, k) seen) rest \<Longrightarrow>
   freshKeys seen (strNode k # n # rest)"
  by (auto simp: freshKeys_def strNode_def)

lemma freshKeys_mono: "freshKeys (insert x seen) rest \<Longrightarrow> freshKeys seen rest"
  by (auto simp: freshKeys_def)

lemma freshKeys_strPair:
  "(ScalarNode, k) \<notin> seen \<Longrightarrow> freshKeys (insert (ScalarNode, k) seen) rest \<Longrightarrow>
   freshKeys seen (strPair k s @ rest)"
  by (simp add: strPair_def freshKeys_pair)

lemma freshKeys_optStr:
  "(ScalarNode, k) \<notin> seen \<Longrightarrow> freshKeys (insert (ScalarNode, k) seen) rest \<Longrightarrow>
   freshKeys seen (optStr k s @ rest)"
  by (simp add: optStr_def freshKeys_strPair freshKeys_mono)

lemma freshKeys_optBool:
  "(ScalarNode, k) \<notin> seen \<Longrightarrow> freshKeys (insert (ScalarNode, k) seen) rest \<Longrightarrow>
   freshKeys seen (optBool k b @ rest)"
  using freshKeys_mono by (auto simp: optBool_def freshKeys_pair)

lemma freshKeys_optNode:
  "(ScalarNode, k) \<notin> seen \<Longrightarrow> freshKeys (insert (ScalarNode, k) seen) rest \<Longrightarrow>
   freshKeys seen ((if P then [strNode k, n] else []) @ rest)"
  using freshKeys_mono by (auto simp: freshKeys_pair)

lemma freshKeys_optNode':
  "(ScalarNode, k) \<notin> seen \<Longrightarrow> freshKeys (insert (ScalarNode, k) seen) rest \<Longrightarrow>
   freshKeys seen ((if P then [] else [strNode k, n]) @ rest)"
  using freshKeys_mono by (auto simp: freshKeys_pair)

lemma freshKeys_Nil: "freshKeys seen []"
  by (simp add: freshKeys_def)

lemma uniqueKeys_Encode: "uniqueKeys (Content (Encode_Collection c))"
proof -
  have "freshKeys {}
     (strPair ''name'' (Name c) @ strPair ''label'' (Label c) @
      optStr ''folder'' (Folder c) @ optBool ''create'' (Create c) @
      optStr ''slug'' (Slug c) @ optStr ''identifier_field'' (IdentifierField c) @
      optStr ''format'' (Format c) @ optStr ''extension'' (Extension c) @
      (if Preview (Editor c)
       then [strNode ''editor'', mapNode [strNode ''preview'', boolNode True]] else []) @
      (if Files c = [] then [] else [strNode ''files'', seqNode (map Encode_File (Files c))]) @
      (if Fields c = [] then [] else [strNode ''fields'', seqNode (map Encode_Field (Fields c))]) @
      [])"
    by (intro freshKeys_strPair freshKeys_optStr freshKeys_optBool freshKeys_optNode
        freshKeys_optNode' freshKeys_Nil) simp_all
  then show ?thesis by (simp add: uniqueKeys_def freshKeys_def Encode_Collection_def mapNode_def)
qed

lemma Decode_Folder_Encode: "Decode_Folder (Encode_Collection c) = Folder c"
proof -
  have "decodeStringField (Content (Encode_Collection c)) ''folder'' = Folder c"
    by (simp add: Encode_Collection_def mapNode_def decode_strPair decode_optStr
        decode_optBool decode_optNode decode_optNode' decode_optNode_last' del: append_assoc)
  moreover have "Kind (Encode_Collection c) = MappingNode"
    by (simp add: Encode_Collection_def mapNode_def)
  ultimately show ?thesis by (simp add: Decode_Folder_def uniqueKeys_Encode)
qed

lemma find_strPair:
  "findField (strPair k s @ rest) key =
     (if k = key then Inr (Some (strNode s)) else findField rest key)"
  by (simp add: strPair_def strNode_def)

lemma find_optStr:
  "findField (optStr k s @ rest) key =
     (if k = key \<and> s \<noteq> [] then Inr (Some (strNode s)) else findField rest key)"
  by (simp add: optStr_def find_strPair)

lemma find_optNode:
  "k \<noteq> key \<Longrightarrow> findField ((if P then [strNode k, n] else []) @ rest) key = findField rest key"
  by (simp add: strNode_def)

lemma find_optBool:
  "k \<noteq> key \<Longrightarrow> findField (optBool k b @ rest) key = findField rest key"
  by (simp add: optBool_def strNode_def)

lemma find_optNode':
  "k \<noteq> key \<Longrightarrow> findField ((if P then [] else [strNode k, n]) @ rest) key = findField rest key"
  by (simp add: strNode_def)

lemma find_optNode_last':
  "k \<noteq> key \<Longrightarrow> findField (if P then [] else [strNode k, n]) key = Inr None"
  by (simp add: strNode_def)

lemma find_optNode_last:
  "k \<noteq> key \<Longrightarrow> findField (if P then [strNode k, n] else []) key = Inr None"
  by (simp add: strNode_def)

lemma findField_slug_Encode:
  "findField (Content (Encode_Collection c)) decaptaIDField =
     Inr (if Slug c = [] then None else Some (strNode (Slug c)))"
  by (simp add: Encode_Collection_def mapNode_def decaptaIDField_def find_strPair find_optStr
      find_optBool find_optNode find_optNode' find_optNode_last' del: append_assoc)

lemma even_optStr: "even (length (optStr k s))" by (simp add: optStr_def strPair_def)
lemma even_optBool: "even (length (optBool k b))" by (simp add: optBool_def)
lemma even_strPair: "even (length (strPair k s))" by (simp add: strPair_def)

lemma even_Encode_Collection: "even (length (Content (Encode_Collection c)))"
  by (simp add: Encode_Collection_def mapNode_def even_optStr even_optBool even_strPair)


lemma extendsList_same: "(\<And>x. x \<in> set cs \<Longrightarrow> extends x x) \<Longrightarrow> extendsList cs (cs @ ys)"
  by (induction cs) auto

lemma extends_refl: "extends n n"
proof (induction n)
  case (Node k t v cs)
  then show ?case using extendsList_same[of cs "[]"] by simp
qed

lemma extendsList_refl: "extendsList cs cs"
  using extendsList_same[of cs "[]"] extends_refl by simp

lemma extendsList_append: "extendsList cs (cs @ ys)"
  using extendsList_same extends_refl by blast

lemma extends_append: "extends n (setContent n (Content n @ ys))"
  by (cases n) (simp add: setContent_def extendsList_append)

lemma extends_content:
  "Kind n' = Kind n \<Longrightarrow> Tag n' = Tag n \<Longrightarrow> Value' n' = Value' n \<Longrightarrow>
   extendsList (Content n) (Content n') \<Longrightarrow> extends n n'"
  by (cases n; cases n') simp

lemma setContent_same [simp]: "setContent n (Content n) = n"
  by (cases n) (simp add: setContent_def)

lemma setContent_sel [simp]:
  "Content (setContent n cs) = cs" "Kind (setContent n cs) = Kind n"
  "Tag (setContent n cs) = Tag n" "Value' (setContent n cs) = Value' n"
  by (simp_all add: setContent_def)

lemma setContent_twice [simp]: "setContent (setContent n cs) cs' = setContent n cs'"
  by (simp add: setContent_def)

lemma addSlug_found:
  "even (length (Content e)) \<Longrightarrow> findField (Content e) decaptaIDField = Inr None \<Longrightarrow>
   \<exists>v. findField (Content (addSlug e c)) decaptaIDField = Inr (Some v)"
  by (simp add: addSlug_def findField_append_missing)

lemma merge_result:
  assumes ev: "even (length (Content e))"
  shows "\<exists>e'. mergeCollectionFields e c = Inr e' \<and> even (length (Content e')) \<and>
              Decode_Folder e' = Decode_Folder e \<and>
              Kind e' = Kind e \<and> Tag e' = Tag e \<and> Value' e' = Value' e \<and>
              (\<exists>added. Content e' = Content e @ added) \<and>
              (IdentifierField c = [] \<or>
               (\<exists>v. findField (Content e') decaptaIDField = Inr (Some v))) \<and>
              ((\<exists>v. findField (Content e) decaptaIDField = Inr (Some v)) \<longrightarrow> e' = e) \<and>
              (IdentifierField c = [] \<longrightarrow> e' = e)"
proof -
  obtain r where r: "findField (Content e) decaptaIDField = Inr r"
    using findField_even[OF ev] by blast
  show ?thesis
  proof (cases "r = None \<and> IdentifierField c \<noteq> []")
    case True
    then have m: "mergeCollectionFields e c = Inr (addSlug e c)"
      by (simp add: mergeCollectionFields_eq r)
    have "\<exists>v. findField (Content (addSlug e c)) decaptaIDField = Inr (Some v)"
      using addSlug_found[OF ev] r True by simp
    moreover have "even (length (Content (addSlug e c)))" using ev by (simp add: addSlug_def)
    moreover have "\<exists>added. Content (addSlug e c) = Content e @ added" by (simp add: addSlug_def)
    ultimately show ?thesis
      using m Decode_Folder_addSlug[OF ev, of c] True r by (simp add: addSlug_def)
  next
    case False
    then have m: "mergeCollectionFields e c = Inr e"
      by (auto simp: mergeCollectionFields_eq r)
    have alt: "IdentifierField c = [] \<or> (\<exists>v. r = Some v)" using False by (cases r) auto
    have "extendsList (Content e) (Content e @ [])" by (rule extendsList_append)
    then have "\<exists>added. Content e = Content e @ added" by simp
    then show ?thesis using m ev alt r by (intro exI[of _ e]) auto
  qed
qed

lemma settled_cong:
  "Decode_Folder e' = Decode_Folder e \<Longrightarrow>
   ((\<exists>v. findField (Content e) decaptaIDField = Inr (Some v)) \<longrightarrow>
    (\<exists>v. findField (Content e') decaptaIDField = Inr (Some v))) \<Longrightarrow>
   settled (e # rest) d \<Longrightarrow> settled (e' # rest) d"
  by (auto simp: findFieldInNode_def split: if_splits sum.splits option.splits)

lemma scan_fix:
  "\<forall>e\<in>set S. even (length (Content e)) \<Longrightarrow> settled S d \<Longrightarrow> upsertScan S d = Inr (Some S)"
proof (induction S)
  case Nil then show ?case by simp
next
  case (Cons e S)
  show ?case
  proof (cases "Decode_Folder e = Folder d")
    case True
    have ev: "even (length (Content e))" using Cons.prems(1) by simp
    from merge_result[OF ev, of d] obtain e' where
      e': "mergeCollectionFields e d = Inr e'"
        "(\<exists>v. findField (Content e) decaptaIDField = Inr (Some v)) \<longrightarrow> e' = e"
        "IdentifierField d = [] \<longrightarrow> e' = e" by blast
    have "e' = e" using Cons.prems(2) True e'(2,3)
      by (auto simp: findFieldInNode_def split: sum.splits option.splits)
    then show ?thesis using True e'(1) by simp
  next
    case False
    then show ?thesis using Cons by simp
  qed
qed

lemma scan_result:
  assumes "\<forall>e\<in>set S. even (length (Content e))"
  shows "(upsertScan S d = Inr None \<and> (\<forall>e\<in>set S. Decode_Folder e \<noteq> Folder d)) \<or>
         (\<exists>S'. upsertScan S d = Inr (Some S') \<and> (\<forall>e\<in>set S'. even (length (Content e))) \<and>
               settled S' d \<and> (\<forall>d'. settled S d' \<longrightarrow> settled S' d') \<and>
               length S' = length S \<and> extendsList S S')"
  using assms
proof (induction S)
  case Nil then show ?case by simp
next
  case (Cons e S)
  have ev: "even (length (Content e))" using Cons.prems by simp
  show ?case
  proof (cases "Decode_Folder e = Folder d")
    case True
    from merge_result[OF ev, of d] obtain e' where
      e': "mergeCollectionFields e d = Inr e'" "even (length (Content e'))"
        "Decode_Folder e' = Decode_Folder e"
        "Kind e' = Kind e \<and> Tag e' = Tag e \<and> Value' e' = Value' e"
        "\<exists>added. Content e' = Content e @ added"
        "IdentifierField d = [] \<or> (\<exists>v. findField (Content e') decaptaIDField = Inr (Some v))"
      by blast
    have s: "settled (e' # S) d" using True e'(3,6)
      by (auto simp: findFieldInNode_def)
    have st: "settled (e # S) d' \<longrightarrow> settled (e' # S) d'" for d'
    proof
      assume a: "settled (e # S) d'"
      show "settled (e' # S) d'"
      proof (rule settled_cong[OF e'(3) _ a], rule impI)
        assume "\<exists>v. findField (Content e) decaptaIDField = Inr (Some v)"
        then obtain v where "findField (Content e) decaptaIDField = Inr (Some v)" by blast
        then show "\<exists>v. findField (Content e') decaptaIDField = Inr (Some v)"
          using e'(5) findField_append_found by metis
      qed
    qed
    have "extends e e'"
      using e'(4,5) by (intro extends_content) (auto simp: extendsList_append)
    then have ex: "extendsList (e # S) (e' # S)" by (simp add: extendsList_refl)
    have 1: "upsertScan (e # S) d = Inr (Some (e' # S))" using True e'(1) by simp
    have 2: "\<forall>x\<in>set (e' # S). even (length (Content x))" using e'(2) Cons.prems by simp
    have 5: "length (e' # S) = length (e # S)" by simp
    show ?thesis using 1 2 s st 5 ex by blast
  next
    case False
    have rest: "\<forall>e\<in>set S. even (length (Content e))" using Cons.prems by simp
    from Cons.IH[OF rest] show ?thesis
    proof
      assume "upsertScan S d = Inr None \<and> (\<forall>e\<in>set S. Decode_Folder e \<noteq> Folder d)"
      then show ?thesis using False by simp
    next
      assume "\<exists>S'. upsertScan S d = Inr (Some S') \<and> (\<forall>e\<in>set S'. even (length (Content e))) \<and>
               settled S' d \<and> (\<forall>d'. settled S d' \<longrightarrow> settled S' d') \<and>
               length S' = length S \<and> extendsList S S'"
      then obtain S' where S': "upsertScan S d = Inr (Some S')"
        "\<forall>e\<in>set S'. even (length (Content e))" "settled S' d"
        "\<forall>d'. settled S d' \<longrightarrow> settled S' d'" "length S' = length S" "extendsList S S'" by blast
      have "extends e e" by (rule extends_refl)
      then have 6: "extendsList (e # S) (e # S')" using S'(6) by simp
      have 1: "upsertScan (e # S) d = Inr (Some (e # S'))" using False S'(1) by simp
      have 2: "\<forall>x\<in>set (e # S'). even (length (Content x))" using ev S'(2) by simp
      have 3: "settled (e # S') d" using False S'(3) by simp
      have 4: "\<forall>d'. settled (e # S) d' \<longrightarrow> settled (e # S') d'" using S'(4) by simp
      have 5: "length (e # S') = length (e # S)" using S'(5) by simp
      show ?thesis using 1 2 3 4 5 6 by blast
    qed
  qed
qed


lemma extendsList_iff:
  "extendsList cs cs' \<longleftrightarrow>
     length cs \<le> length cs' \<and> (\<forall>i<length cs. extends (cs ! i) (cs' ! i))"
proof (induction cs arbitrary: cs')
  case Nil then show ?case by simp
next
  case (Cons c cs)
  show ?case
  proof (cases cs')
    case Nil then show ?thesis by simp
  next
    case (Cons c' cs'')
    show ?thesis unfolding Cons using Cons.IH[of cs'']
      by (auto simp: nth_Cons split: nat.splits)
  qed
qed

lemma extends_trans: "extends a b \<Longrightarrow> extends b c \<Longrightarrow> extends a c"
proof (induction a arbitrary: b c)
  case (Node k t v cs)
  obtain k' t' v' cs' where b: "b = Node k' t' v' cs'" by (cases b)
  obtain k'' t'' v'' cs'' where c: "c = Node k'' t'' v'' cs''" by (cases c)
  have ab: "extendsList cs cs'" and bc: "extendsList cs' cs''"
    and eq: "k = k''" "t = t''" "v = v''"
    using Node.prems b c by auto
  have "extendsList cs cs''"
    unfolding extendsList_iff
  proof (intro conjI allI impI)
    show "length cs \<le> length cs''" using ab bc by (auto simp: extendsList_iff)
  next
    fix i assume i: "i < length cs"
    then have 1: "extends (cs ! i) (cs' ! i)" using ab by (simp add: extendsList_iff)
    have "i < length cs'" using i ab by (simp add: extendsList_iff)
    then have 2: "extends (cs' ! i) (cs'' ! i)" using bc by (simp add: extendsList_iff)
    show "extends (cs ! i) (cs'' ! i)" using Node.IH[OF nth_mem[OF i] 1 2] .
  qed
  then show ?case using eq c by simp
qed

lemma settled_append: "settled S d \<Longrightarrow> settled (S @ X) d"
  by (induction S) (auto split: if_splits)

lemma settled_append_new:
  "\<forall>e\<in>set S. Decode_Folder e \<noteq> Folder d \<Longrightarrow> IdentifierField d \<noteq> [] \<longrightarrow> Slug d \<noteq> [] \<Longrightarrow>
   settled (S @ [Encode_Collection d]) d"
  by (induction S)
     (auto simp: Decode_Folder_Encode findFieldInNode_def findField_slug_Encode)

lemma upsert_settles:
  assumes "\<forall>e\<in>set (Content cn). even (length (Content e))"
    and "\<forall>d\<in>set D. IdentifierField d \<noteq> [] \<longrightarrow> Slug d \<noteq> []"
  shows "\<exists>cn'. upsertCollections cn D = Inr cn' \<and>
               (\<forall>e\<in>set (Content cn'). even (length (Content e))) \<and>
               (\<forall>d\<in>set D. settled (Content cn') d) \<and>
               (\<forall>d'. settled (Content cn) d' \<longrightarrow> settled (Content cn') d')"
  using assms
proof (induction D arbitrary: cn)
  case Nil then show ?case by simp
next
  case (Cons d D)
  define S where "S = Content cn"
  have ok: "IdentifierField d \<noteq> [] \<longrightarrow> Slug d \<noteq> []" using Cons.prems(2) by simp
  have okD: "\<forall>d\<in>set D. IdentifierField d \<noteq> [] \<longrightarrow> Slug d \<noteq> []" using Cons.prems(2) by simp
  obtain cn1 where cn1: "upsertCollections cn (d # D) = upsertCollections cn1 D"
      "\<forall>e\<in>set (Content cn1). even (length (Content e))" "settled (Content cn1) d"
      "\<forall>d'. settled (Content cn) d' \<longrightarrow> settled (Content cn1) d'"
  proof -
    from scan_result[OF Cons.prems(1), of d]
    consider (none) "upsertScan (Content cn) d = Inr None" "\<forall>e\<in>set (Content cn). Decode_Folder e \<noteq> Folder d"
      | (some) S' where "upsertScan (Content cn) d = Inr (Some S')"
          "\<forall>e\<in>set S'. even (length (Content e))" "settled S' d"
          "\<forall>d'. settled (Content cn) d' \<longrightarrow> settled S' d'"
      by blast
    then show ?thesis
    proof cases
      case none
      let ?cn1 = "setContent cn (Content cn @ [Encode_Collection d])"
      have "upsertCollections cn (d # D) = upsertCollections ?cn1 D" using none(1) by simp
      moreover have "\<forall>e\<in>set (Content ?cn1). even (length (Content e))"
        using Cons.prems(1) even_Encode_Collection by simp
      moreover have "settled (Content ?cn1) d"
        using settled_append_new[OF none(2) ok] by simp
      moreover have "\<forall>d'. settled (Content cn) d' \<longrightarrow> settled (Content ?cn1) d'"
        using settled_append by simp
      ultimately show ?thesis by (rule that)
    next
      case some
      let ?cn1 = "setContent cn S'"
      have "upsertCollections cn (d # D) = upsertCollections ?cn1 D" using some(1) by simp
      then show ?thesis using some(2,3,4) by (intro that[of ?cn1]) simp_all
    qed
  qed
  from Cons.IH[OF cn1(2) okD] obtain cn' where cn':
    "upsertCollections cn1 D = Inr cn'" "\<forall>e\<in>set (Content cn'). even (length (Content e))"
    "\<forall>d\<in>set D. settled (Content cn') d"
    "\<forall>d'. settled (Content cn1) d' \<longrightarrow> settled (Content cn') d'" by blast
  have "upsertCollections cn (d # D) = Inr cn'" using cn1(1) cn'(1) by simp
  moreover have "\<forall>x\<in>set (d # D). settled (Content cn') x" using cn'(3,4) cn1(3) by simp
  moreover have "\<forall>d'. settled (Content cn) d' \<longrightarrow> settled (Content cn') d'"
    using cn1(4) cn'(4) by blast
  ultimately show ?case using cn'(2) by blast
qed

lemma upsert_fix:
  "\<forall>e\<in>set (Content cn). even (length (Content e)) \<Longrightarrow> \<forall>d\<in>set D. settled (Content cn) d \<Longrightarrow>
   upsertCollections cn D = Inr cn"
  by (induction D) (simp_all add: scan_fix)


lemma findField_storeField:
  "findField cs key = Inr (Some v) \<Longrightarrow> findField (storeField cs key v') key = Inr (Some v')"
  by (induction cs key rule: findField.induct) (auto split: if_splits)

lemma storeField_twice:
  "storeField (storeField cs key a) key b = storeField cs key b"
  by (induction cs key a rule: storeField.induct) auto

lemma storeField_found:
  "findField cs key = Inr (Some v) \<Longrightarrow> storeField cs key v = cs"
  by (induction cs key rule: findField.induct) (auto split: if_splits)

lemma synchronize_idempotent:
  assumes pc: "pairedConfig T" and ok: "\<forall>d\<in>set D. IdentifierField d \<noteq> [] \<longrightarrow> Slug d \<noteq> []"
  shows "\<exists>T1. synchronize T D = Inr T1 \<and> synchronize T1 D = Inr T1"
proof -
  obtain topNode others where T: "Content T = topNode # others"
    using pc by (auto simp: pairedConfig_def split: list.splits)
  have ev: "even (length (Content topNode))" using pc T by (simp add: pairedConfig_def)
  have evc: "\<forall>e\<in>set (collectionsOf T). even (length (Content e))"
    using pc T by (simp add: pairedConfig_def list_all_iff)
  obtain r where r: "findField (Content topNode) ''collections'' = Inr r"
    using findField_even[OF ev] by blast
  show ?thesis
  proof (cases r)
    case None
    let ?seq = "Node SequenceNode ''!!seq'' [] []"
    have "\<forall>e\<in>set (Content ?seq). even (length (Content e))" by simp
    from upsert_settles[OF this ok] obtain cn' where cn':
      "upsertCollections ?seq D = Inr cn'" "\<forall>e\<in>set (Content cn'). even (length (Content e))"
      "\<forall>d\<in>set D. settled (Content cn') d" by blast
    let ?cs1 = "Content topNode @ [Node ScalarNode [] ''collections'' [], cn']"
    let ?T1 = "setContent T (setContent topNode ?cs1 # others)"
    have 1: "synchronize T D = Inr ?T1"
      using T r None cn'(1) by (simp add: synchronize_def)
    have f: "findField ?cs1 ''collections'' = Inr (Some cn')"
      using findField_append_missing[OF ev] r None by simp
    have "synchronize ?T1 D = Inr ?T1"
      using f upsert_fix[OF cn'(2,3)] storeField_found[OF f] by (simp add: synchronize_def)
    then show ?thesis using 1 by blast
  next
    case (Some cn)
    have "collectionsOf T = Content cn" using T r Some by (simp add: collectionsOf_def)
    then have "\<forall>e\<in>set (Content cn). even (length (Content e))" using evc by simp
    from upsert_settles[OF this ok] obtain cn' where cn':
      "upsertCollections cn D = Inr cn'" "\<forall>e\<in>set (Content cn'). even (length (Content e))"
      "\<forall>d\<in>set D. settled (Content cn') d" by blast
    let ?cs1 = "storeField (Content topNode) ''collections'' cn'"
    let ?T1 = "setContent T (setContent topNode ?cs1 # others)"
    have 1: "synchronize T D = Inr ?T1"
      using T r Some cn'(1) by (simp add: synchronize_def)
    have f: "findField ?cs1 ''collections'' = Inr (Some cn')"
      using findField_storeField r Some by simp
    have "synchronize ?T1 D = Inr ?T1"
      using f upsert_fix[OF cn'(2,3)] by (simp add: synchronize_def storeField_twice)
    then show ?thesis using 1 by blast
  qed
qed


lemma example_synchronize:
  "synchronize (exampleConfig exampleEntry) [exampleCollection] = Inr (exampleConfig exampleEntrySlug)"
  "synchronize (exampleConfig exampleEntrySlug) [exampleCollection] = Inr (exampleConfig exampleEntrySlug)"
  by (simp_all add: synchronize_def exampleConfig_def exampleEntry_def exampleEntrySlug_def
      mapNode_def strPair_def strNode_def
      seqNode_def setContent_def mergeCollectionFields_eq Decode_Folder_def uniqueKeys_def isNull_def
      exampleCollection_def decaptaIDField_def addSlug_def)



lemma keeps_refl: "keeps e e"
  by (simp add: keeps_def)

lemma keeps_trans: "keeps a b \<Longrightarrow> keeps b c \<Longrightarrow> keeps a c"
proof -
  assume ab: "keeps a b" and bc: "keeps b c"
  have l: "length (Content a) \<le> length (Content b)" "length (Content b) \<le> length (Content c)"
    using ab bc by (simp_all add: keeps_def)
  have "take (length (Content a)) (Content c)
        = take (length (Content a)) (take (length (Content b)) (Content c))"
    using l(1) by (simp add: min_def)
  also have "\<dots> = take (length (Content a)) (Content b)" using bc by (simp add: keeps_def)
  also have "\<dots> = Content a" using ab by (simp add: keeps_def)
  finally show ?thesis using ab bc l by (simp add: keeps_def)
qed

lemma keeps_append: "keeps e (setContent e (Content e @ ys))"
  by (simp add: keeps_def)

lemma keeps_extends: "keeps e e' \<Longrightarrow> extends e e'"
proof -
  assume k: "keeps e e'"
  then have "Content e' = Content e @ drop (length (Content e)) (Content e')"
    unfolding keeps_def by (metis append_take_drop_id)
  then have "extendsList (Content e) (Content e')" by (metis extendsList_append)
  then show ?thesis using k by (intro extends_content) (simp_all add: keeps_def)
qed

lemma keeps_findField:
  "keeps e e' \<Longrightarrow> findFieldInNode e key = Inr (Some v) \<Longrightarrow> findFieldInNode e' key = Inr (Some v)"
proof -
  assume k: "keeps e e'" and f: "findFieldInNode e key = Inr (Some v)"
  have "Content e' = Content e @ drop (length (Content e)) (Content e')"
    using k unfolding keeps_def by (metis append_take_drop_id)
  then show ?thesis using f findField_append_found unfolding findFieldInNode_def by metis
qed

lemma merge_keeps: "mergeCollectionFields e c = Inr e' \<Longrightarrow> keeps e e'"
proof -
  assume m: "mergeCollectionFields e c = Inr e'"
  then have "e' = e \<or> e' = addSlug e c"
    unfolding mergeCollectionFields_eq by (cases "findField (Content e) decaptaIDField") auto
  then show ?thesis unfolding addSlug_def using keeps_refl keeps_append by metis
qed

lemma scan_keeps: "upsertScan S d = Inr (Some S') \<Longrightarrow> list_all2 keeps S S'"
proof (induction S arbitrary: S')
  case Nil then show ?case by simp
next
  case (Cons e S)
  show ?case
  proof (cases "Decode_Folder e = Folder d")
    case True
    then obtain e' where "mergeCollectionFields e d = Inr e'" "S' = e' # S"
      using Cons.prems by (auto split: sum.splits)
    then show ?thesis using merge_keeps by (simp add: list_all2_refl keeps_refl)
  next
    case False
    then obtain R where "upsertScan S d = Inr (Some R)" "S' = e # R"
      using Cons.prems by (auto split: sum.splits option.splits)
    then show ?thesis using Cons.IH keeps_refl by simp
  qed
qed

lemma keepsAll_nth:
  "keepsAll S S' \<longleftrightarrow> length S \<le> length S' \<and> (\<forall>i<length S. keeps (S ! i) (S' ! i))"
  by (auto simp: keepsAll_def list_all2_conv_all_nth)

lemma keepsAll_trans: "keepsAll a b \<Longrightarrow> keepsAll b c \<Longrightarrow> keepsAll a c"
proof -
  assume ab: "keepsAll a b" and bc: "keepsAll b c"
  have "keeps (a ! i) (c ! i)" if "i < length a" for i
  proof -
    have "keeps (a ! i) (b ! i)" using ab that by (simp add: keepsAll_nth)
    moreover have "i < length b" using ab that by (simp add: keepsAll_nth)
    then have "keeps (b ! i) (c ! i)" using bc by (simp add: keepsAll_nth)
    ultimately show ?thesis by (rule keeps_trans)
  qed
  moreover have "length a \<le> length c" using ab bc by (simp add: keepsAll_nth)
  ultimately show ?thesis by (simp add: keepsAll_nth)
qed

lemma upsert_keeps:
  "upsertCollections cn D = Inr cn' \<Longrightarrow>
   Kind cn' = Kind cn \<and> Tag cn' = Tag cn \<and> Value' cn' = Value' cn \<and>
   keepsAll (Content cn) (Content cn')"
proof (induction D arbitrary: cn)
  case Nil then show ?case by (simp add: keepsAll_nth keeps_refl)
next
  case (Cons d D)
  from Cons.prems obtain cn1 where cn1: "upsertCollections cn1 D = Inr cn'"
    "Kind cn1 = Kind cn \<and> Tag cn1 = Tag cn \<and> Value' cn1 = Value' cn"
    "keepsAll (Content cn) (Content cn1)"
  proof (cases "upsertScan (Content cn) d")
    case (Inl x) then show ?thesis using Cons.prems by simp
  next
    case (Inr r)
    show ?thesis
    proof (cases r)
      case None
      let ?cn1 = "setContent cn (Content cn @ [Encode_Collection d])"
      have "upsertCollections ?cn1 D = Inr cn'" using Cons.prems Inr None by simp
      moreover have "keepsAll (Content cn) (Content ?cn1)"
        by (simp add: keepsAll_nth keeps_refl nth_append)
      ultimately show ?thesis by (intro that[of ?cn1]) simp_all
    next
      case (Some S')
      let ?cn1 = "setContent cn S'"
      have "upsertCollections ?cn1 D = Inr cn'" using Cons.prems Inr Some by simp
      moreover have "list_all2 keeps (Content cn) S'" using scan_keeps Inr Some by blast
      then have "keepsAll (Content cn) (Content ?cn1)"
        by (simp add: keepsAll_nth list_all2_conv_all_nth)
      ultimately show ?thesis by (intro that[of ?cn1]) simp_all
    qed
  qed
  from Cons.IH[OF cn1(1)] have r: "Kind cn' = Kind cn1 \<and> Tag cn' = Tag cn1 \<and> Value' cn' = Value' cn1"
    "keepsAll (Content cn1) (Content cn')" by simp_all
  have "keepsAll (Content cn) (Content cn')" using cn1(3) r(2) by (rule keepsAll_trans)
  then show ?case using r(1) cn1(2) by simp
qed

lemma keepsAll_extendsList: "keepsAll S S' \<Longrightarrow> extendsList S S'"
  by (simp add: keepsAll_nth extendsList_iff keeps_extends)

lemma storeField_extends:
  "findField cs key = Inr (Some v) \<Longrightarrow> extends v v' \<Longrightarrow> extendsList cs (storeField cs key v')"
  by (induction cs key rule: findField.induct)
     (auto simp: extends_refl extendsList_refl split: if_splits)

lemma synchronize_extends: "synchronize T D = Inr T' \<Longrightarrow> extends T T'"
proof -
  assume s: "synchronize T D = Inr T'"
  then obtain topNode others where T: "Content T = topNode # others"
    by (auto simp: synchronize_def split: list.splits)
  from s T obtain r where r: "findField (Content topNode) ''collections'' = Inr r"
    by (auto simp: synchronize_def split: sum.splits)
  have topx: "extends T (setContent T (topNode' # others))" if "extends topNode topNode'" for topNode'
    using that T by (intro extends_content) (simp_all add: extendsList_refl)
  show ?thesis
  proof (cases r)
    case None
    then obtain cn' where "T' = setContent T (setContent topNode
        (Content topNode @ [Node ScalarNode [] ''collections'' [], cn']) # others)"
      using s T r by (auto simp: synchronize_def split: sum.splits)
    then show ?thesis using topx[OF extends_append] by simp
  next
    case (Some cn)
    then obtain cn' where cn': "upsertCollections cn D = Inr cn'"
      "T' = setContent T (setContent topNode
              (storeField (Content topNode) ''collections'' cn') # others)"
      using s T r by (auto simp: synchronize_def split: sum.splits)
    have "extends cn cn'"
      using upsert_keeps[OF cn'(1)] by (intro extends_content) (simp_all add: keepsAll_extendsList)
    then have "extendsList (Content topNode) (storeField (Content topNode) ''collections'' cn')"
      using storeField_extends r Some by simp
    then have "extends topNode (setContent topNode (storeField (Content topNode) ''collections'' cn'))"
      by (intro extends_content) simp_all
    then show ?thesis using topx cn'(2) by simp
  qed
qed



lemma mergeFieldsLoop_keeps:
  "mergeFieldsLoop e news = Inr e' \<Longrightarrow>
   keeps e e' \<and> set (drop (length (Content e)) (Content e')) \<subseteq> set news"
proof (induction news arbitrary: e)
  case Nil then show ?case by (simp add: keeps_refl)
next
  case (Cons n news)
  from Cons.prems obtain nameNode where nn: "findFieldInNode n ''name'' = Inr (Some nameNode)"
    by (auto split: sum.splits option.splits)
  from Cons.prems nn obtain r where r: "findFieldByName (Content e) (Value' nameNode) = Inr r"
    by (auto split: sum.splits)
  show ?case
  proof (cases r)
    case None
    let ?e1 = "setContent e (Content e @ [n])"
    have m: "mergeFieldsLoop ?e1 news = Inr e'" using Cons.prems nn r None by simp
    from Cons.IH[OF m] have k: "keeps ?e1 e'"
      and d: "set (drop (length (Content ?e1)) (Content e')) \<subseteq> set news" by simp_all
    have ke: "keeps e e'" using keeps_append k by (rule keeps_trans)
    have c: "Content e' = (Content e @ [n]) @ drop (Suc (length (Content e))) (Content e')"
      using k unfolding keeps_def by (metis append_take_drop_id setContent_sel(1) length_append_singleton)
    have "drop (length (Content e)) (Content e') = n # drop (Suc (length (Content e))) (Content e')"
      by (subst c) simp
    then show ?thesis using ke d by auto
  next
    case (Some x)
    then have "mergeFieldsLoop e news = Inr e'" using Cons.prems nn r by simp
    from Cons.IH[OF this] show ?thesis by auto
  qed
qed

lemma mergeEditorLoop_keeps: "mergeEditorLoop e kvs = Inr e' \<Longrightarrow> keeps e e'"
proof (induction e kvs rule: mergeEditorLoop.induct)
  case (1 e) then show ?case by (simp add: keeps_refl)
next
  case (2 e k) then show ?case by simp
next
  case (3 e k v rest)
  from "3.prems" obtain r where r: "findFieldInNode e (Value' k) = Inr r"
    by (auto split: sum.splits)
  show ?case
  proof (cases r)
    case None
    then have "keeps (setContent e (Content e @ [k, v])) e'" using 3 r by simp
    then show ?thesis using keeps_append keeps_trans by blast
  next
    case (Some x)
    then show ?thesis using 3 r by simp
  qed
qed

lemma mergeLoop_extends: "mergeLoop e kvs = Inr e' \<Longrightarrow> extends e e'"
proof (induction e kvs rule: mergeLoop.induct)
  case (1 e) then show ?case by (simp add: extends_refl)
next
  case (2 e k) then show ?case by simp
next
  case (3 e k v rest)
  from "3.prems" obtain r where r: "findFieldInNode e (Value' k) = Inr r"
    by (auto split: sum.splits)
  show ?case
  proof (cases r)
    case None
    then have "extends (setContent e (Content e @ [k, v])) e'" using 3 r by simp
    then show ?thesis using extends_append extends_trans by blast
  next
    case (Some x)
    have stored: "extends e (setContent e (storeField (Content e) (Value' k) m))"
      if "extends x m" for m
    proof -
      have "extendsList (Content e) (storeField (Content e) (Value' k) m)"
        using storeField_extends[OF _ that] r Some by (simp add: findFieldInNode_def)
      then show ?thesis by (intro extends_content) simp_all
    qed
    consider (f) "Value' k = ''fields''" | (e) "Value' k \<noteq> ''fields''" "Value' k = ''editor''"
      | (o) "Value' k \<noteq> ''fields''" "Value' k \<noteq> ''editor''" by blast
    then show ?thesis
    proof cases
      case f
      with "3.prems" r Some obtain m where m: "mergeFields x v = Inr m"
        "mergeLoop (setContent e (storeField (Content e) (Value' k) m)) rest = Inr e'"
        by (auto split: sum.splits)
      have "extends x m" using m(1) mergeFieldsLoop_keeps keeps_extends
        unfolding mergeFields_def by blast
      from stored[OF this] "3.IH"(2)[OF r Some f m(1) m(2)] show ?thesis by (rule extends_trans)
    next
      case e
      with "3.prems" r Some obtain m where m: "mergeEditor x v = Inr m"
        "mergeLoop (setContent e (storeField (Content e) (Value' k) m)) rest = Inr e'"
        by (auto split: sum.splits)
      have "extends x m" using m(1) mergeEditorLoop_keeps keeps_extends
        unfolding mergeEditor_def by blast
      from stored[OF this] "3.IH"(3)[OF r Some e(1) e(2) m(1) m(2)] show ?thesis by (rule extends_trans)
    next
      case o
      then show ?thesis using 3 r Some by simp
    qed
  qed
qed

lemma synchronize_keeps:
  "synchronize T D = Inr T' \<Longrightarrow> keepsAll (collectionsOf T) (collectionsOf T')"
proof -
  assume s: "synchronize T D = Inr T'"
  then obtain topNode others where T: "Content T = topNode # others"
    by (auto simp: synchronize_def split: list.splits)
  from s T obtain r where r: "findField (Content topNode) ''collections'' = Inr r"
    by (auto simp: synchronize_def split: sum.splits)
  show ?thesis
  proof (cases r)
    case None
    then have "collectionsOf T = []" using T r by (simp add: collectionsOf_def)
    then show ?thesis by (simp add: keepsAll_def)
  next
    case (Some cn)
    then obtain cn' where cn': "upsertCollections cn D = Inr cn'"
      "T' = setContent T (setContent topNode
              (storeField (Content topNode) ''collections'' cn') # others)"
      using s T r by (auto simp: synchronize_def split: sum.splits)
    have "findField (storeField (Content topNode) ''collections'' cn') ''collections'' = Inr (Some cn')"
      using findField_storeField r Some by simp
    then have "collectionsOf T' = Content cn'" using cn'(2) by (simp add: collectionsOf_def)
    moreover have "collectionsOf T = Content cn" using T r Some by (simp add: collectionsOf_def)
    ultimately show ?thesis using upsert_keeps[OF cn'(1)] by simp
  qed
qed


lemma upsert_same_folder_no_append:
  assumes "\<exists>e\<in>set (Content cn). Decode_Folder e = Folder d"
    and "upsertCollections cn [d] = Inr cn'"
  shows "length (Content cn') = length (Content cn)"
proof -
  have "upsertScan S d \<noteq> Inr None" if "\<exists>e\<in>set S. Decode_Folder e = Folder d" for S
    using that by (induction S) (auto split: sum.splits option.splits)
  then have "upsertScan (Content cn) d \<noteq> Inr None" using assms(1) by blast
  then obtain S' where S': "upsertScan (Content cn) d = Inr (Some S')" "cn' = setContent cn S'"
    using assms(2) by (auto split: sum.splits option.splits)
  then show ?thesis using scan_keeps[OF S'(1)] by (simp add: list_all2_lengthD)
qed

text \<open>Claim C5. A descriptor should be matched by its identity key: the folder, or the
  file name group of a source without folder. \<^verbatim>\<open>upsertCollections\<close> compares folders only
  (\<open>upsert_same_folder_no_append\<close>: an entry with the folder of the descriptor, whatever
  its label, is merged and nothing is appended), and the descriptors of translation files
  have no folder: the descriptor of \<^verbatim>\<open>ja.yaml\<close> is taken for the entry of \<^verbatim>\<open>en.yaml\<close>, and
  the second language gets no collection.\<close>

theorem upsert_collapses_translations:
  "upsertCollections (seqNode [])
     [ARBCollection ''en'' ''content/en.yaml'' [], ARBCollection ''ja'' ''content/ja.yaml'' []]
   = Inr (seqNode [Encode_Collection (ARBCollection ''en'' ''content/en.yaml'' [])])"
proof -
  have "IdentifierField (ARBCollection ''ja'' ''content/ja.yaml'' []) = []"
    "Folder (ARBCollection ''ja'' ''content/ja.yaml'' []) = []"
    "Folder (ARBCollection ''en'' ''content/en.yaml'' []) = []"
    by (simp_all add: ARBCollection_def)
  then show ?thesis
    by (simp add: seqNode_def setContent_def mergeCollectionFields_eq Decode_Folder_Encode
        findField_slug_Encode)
qed



section \<open>The scenario of a two-row table\<close>

lemma scan_no_folder:
  "\<forall>e\<in>set S. Decode_Folder e \<noteq> Folder d \<Longrightarrow> upsertScan S d = Inr None"
  by (induction S) auto

lemma detect_name_column:
  "detectFieldType pf pd [[''Alice'', ''x''], [''Bob'', ''y'']] 0 =
     (if pd ''Alice'' \<and> pd ''Bob'' then ''datetime''
      else if pf ''Alice'' \<and> pf ''Bob'' then ''number'' else ''string'')"
  by (auto simp: detectFieldType_def detectStep_def ToLower_def less_eq_char_def Let_def)

lemma detect_data_column:
  "detectFieldType pf pd [[''Alice'', ''x''], [''Bob'', ''y'']] (Suc 0) =
     (if pd ''x'' \<and> pd ''y'' then ''datetime''
      else if pf ''x'' \<and> pf ''y'' then ''number'' else ''string'')"
  by (auto simp: detectFieldType_def detectStep_def ToLower_def less_eq_char_def Let_def)

lemma scenario_collection:
  "CSVGenerateConfig pf pd ''people'' ''content/people'' scenarioTable =
     Some \<lparr>Name = ''csv_people'', Label = ''CSV Data (people)'', Folder = ''content/people'',
           Create = True, Slug = ''{{slug}}'', IdentifierField = ''slug'', Format = ''yaml'',
           Extension = ''yaml'', Editor = \<lparr>Preview = False\<rparr>, Files = [],
           Fields = [Field ''Decapta ID'' ''slug'' ''string'' [] [] False [] [] True None [] [] [],
                     Field ''name'' ''name''
                       (detectFieldType pf pd [[''Alice'', ''x''], [''Bob'', ''y'']] 0)
                       [] [] False [] [] False None [] [] [],
                     Field ''data'' ''decapta_data''
                       (detectFieldType pf pd [[''Alice'', ''x''], [''Bob'', ''y'']] (Suc 0))
                       [] [] False [] [] False None [] [] []]\<rparr>"
  by (simp add: CSVGenerateConfig_def scenarioTable_def headerField_def decaptaIDField_def
      addPrefixIfReserved_def reservedFields_def decaptaPrefix_def enumerate_eq_zip Let_def
      detect_name_column detect_data_column)


lemma decimal_1_2: "decimal (Suc 0) = ''1''" "decimal (Suc (Suc 0)) = ''2''"
  by code_simp+

lemma scenario_roundtrip:
  "CSVRoundTrip ''people'' scenarioTable [''name''] = Some scenarioTable"
proof -
  have "CSVRoundTrip ''people'' ([''name'', ''data''] # [[''Alice'', ''x''], [''Bob'', ''y'']]) [''name'']
        = Some ([''name'', ''data''] #
                map (restoredRow [''name'', ''data''] [''name'']) [[''Alice'', ''x''], [''Bob'', ''y'']])"
    by (rule csv_roundtrip_aux) simp_all
  then show ?thesis by (simp add: scenarioTable_def restoredRow_def decaptaIDField_def)
qed

text \<open>Claim C9. The table \<^verbatim>\<open>name,data\<close> with the rows \<^verbatim>\<open>Alice,x\<close> and \<^verbatim>\<open>Bob,y\<close>, slug field
  \<^verbatim>\<open>name\<close>, read from a file \<^verbatim>\<open>people.csv\<close> with content directory \<^verbatim>\<open>content\<close>. Forward
  conversion writes the column order \<^verbatim>\<open>name, decapta_data\<close> and the two documents
  \<^verbatim>\<open>1.yaml\<close> and \<^verbatim>\<open>2.yaml\<close> with the identifiers \<^verbatim>\<open>Alice\<close> and \<^verbatim>\<open>Bob\<close>. Config generation
  builds one collection and, on a template without a \<^verbatim>\<open>collections\<close> key, the configuration
  document gets that key with this collection as its only entry (on a collections node
  without an entry for the folder the collection is appended); its field list is the
  required identifier field \<^verbatim>\<open>slug\<close>, then \<^verbatim>\<open>name\<close>, then \<^verbatim>\<open>decapta_data\<close> with label
  \<^verbatim>\<open>data\<close>. Reverse conversion restores the header \<^verbatim>\<open>data\<close> and the table.\<close>

theorem scenario_name_data:
  assumes "findField tc ''collections'' = Inr None"
  shows
   "CSVPreProcess scenarioTable [''name''] =
      Some ([''name'', ''decapta_data''],
            [(''1.yaml'', rowDocument [''name'', ''data''] [''name''] [''Alice'', ''x'']),
             (''2.yaml'', rowDocument [''name'', ''data''] [''name''] [''Bob'', ''y''])]) \<and>
    rowDocument [''name'', ''data''] [''name''] [''Alice'', ''x''] decaptaIDField = Some ''Alice'' \<and>
    rowDocument [''name'', ''data''] [''name''] [''Bob'', ''y''] decaptaIDField = Some ''Bob'' \<and>
    rowDocument [''name'', ''data''] [''name''] [''Alice'', ''x''] ''decapta_data'' = Some ''x'' \<and>
    (case CSVGenerateConfig pf pd ''people'' ''content/people'' scenarioTable of
       None \<Rightarrow> False
     | Some coll \<Rightarrow>
         synchronize (Node DocumentNode t v [Node MappingNode t' v' tc]) [coll] =
           Inr (Node DocumentNode t v
                  [Node MappingNode t' v'
                     (tc @ [Node ScalarNode [] ''collections'' [],
                            Node SequenceNode ''!!seq'' [] [Encode_Collection coll]])]) \<and>
         ((\<forall>existingNode\<in>set (Content cn). Decode_Folder existingNode \<noteq> ''content/people'') \<longrightarrow>
            upsertCollections cn [coll] =
              Inr (setContent cn (Content cn @ [Encode_Collection coll]))) \<and>
         findFieldInNode (Encode_Collection coll) ''fields'' =
           Inr (Some (seqNode
             [mapNode (strPair ''label'' ''Decapta ID'' @ strPair ''name'' ''slug'' @
                       strPair ''widget'' ''string'' @ [strNode ''required'', boolNode True]),
              mapNode (strPair ''label'' ''name'' @ strPair ''name'' ''name'' @
                       strPair ''widget''
                         (detectFieldType pf pd [[''Alice'', ''x''], [''Bob'', ''y'']] 0)),
              mapNode (strPair ''label'' ''data'' @ strPair ''name'' ''decapta_data'' @
                       strPair ''widget''
                         (detectFieldType pf pd [[''Alice'', ''x''], [''Bob'', ''y'']] (Suc 0)))]))) \<and>
    map removePrefixIfReserved [''name'', ''decapta_data''] = [''name'', ''data''] \<and>
    CSVRoundTrip ''people'' scenarioTable [''name''] = Some scenarioTable"
proof -
  have pre: "CSVPreProcess scenarioTable [''name''] =
      Some ([''name'', ''decapta_data''],
            [(''1.yaml'', rowDocument [''name'', ''data''] [''name''] [''Alice'', ''x'']),
             (''2.yaml'', rowDocument [''name'', ''data''] [''name''] [''Bob'', ''y''])])"
    by (simp add: CSVPreProcess_def scenarioTable_def enumerate_eq_zip addPrefixIfReserved_def
        reservedFields_def decaptaPrefix_def decimal_1_2)
  have ids: "rowDocument [''name'', ''data''] [''name''] [''Alice'', ''x''] decaptaIDField = Some ''Alice''"
    "rowDocument [''name'', ''data''] [''name''] [''Bob'', ''y''] decaptaIDField = Some ''Bob''"
    "rowDocument [''name'', ''data''] [''name''] [''Alice'', ''x''] ''decapta_data'' = Some ''x''"
    by (simp_all add: rowDocument_def generateIdentifierField_def decaptaIDField_def
        addPrefixIfReserved_def reservedFields_def decaptaPrefix_def Let_def)
  define coll where "coll =
     \<lparr>Name = ''csv_people'', Label = ''CSV Data (people)'', Folder = ''content/people'',
           Create = True, Slug = ''{{slug}}'', IdentifierField = ''slug'', Format = ''yaml'',
           Extension = ''yaml'', Editor = \<lparr>Preview = False\<rparr>, Files = [],
           Fields = [Field ''Decapta ID'' ''slug'' ''string'' [] [] False [] [] True None [] [] [],
                     Field ''name'' ''name''
                       (detectFieldType pf pd [[''Alice'', ''x''], [''Bob'', ''y'']] 0)
                       [] [] False [] [] False None [] [] [],
                     Field ''data'' ''decapta_data''
                       (detectFieldType pf pd [[''Alice'', ''x''], [''Bob'', ''y'']] (Suc 0))
                       [] [] False [] [] False None [] [] []]\<rparr>"
  have gen: "CSVGenerateConfig pf pd ''people'' ''content/people'' scenarioTable = Some coll"
    unfolding coll_def by (rule scenario_collection)
  have syn: "synchronize (Node DocumentNode t v [Node MappingNode t' v' tc]) [coll] =
           Inr (Node DocumentNode t v
                  [Node MappingNode t' v'
                     (tc @ [Node ScalarNode [] ''collections'' [],
                            Node SequenceNode ''!!seq'' [] [Encode_Collection coll]])])"
    using assms by (simp add: synchronize_def setContent_def)
  have ups: "(\<forall>existingNode\<in>set (Content cn). Decode_Folder existingNode \<noteq> ''content/people'') \<longrightarrow>
            upsertCollections cn [coll] =
              Inr (setContent cn (Content cn @ [Encode_Collection coll]))"
  proof
    assume "\<forall>existingNode\<in>set (Content cn). Decode_Folder existingNode \<noteq> ''content/people''"
    then have "\<forall>e\<in>set (Content cn). Decode_Folder e \<noteq> Folder coll" by (simp add: coll_def)
    from scan_no_folder[OF this] show "upsertCollections cn [coll] =
              Inr (setContent cn (Content cn @ [Encode_Collection coll]))" by simp
  qed
  have fl: "findFieldInNode (Encode_Collection coll) ''fields'' =
           Inr (Some (seqNode
             [mapNode (strPair ''label'' ''Decapta ID'' @ strPair ''name'' ''slug'' @
                       strPair ''widget'' ''string'' @ [strNode ''required'', boolNode True]),
              mapNode (strPair ''label'' ''name'' @ strPair ''name'' ''name'' @
                       strPair ''widget''
                         (detectFieldType pf pd [[''Alice'', ''x''], [''Bob'', ''y'']] 0)),
              mapNode (strPair ''label'' ''data'' @ strPair ''name'' ''decapta_data'' @
                       strPair ''widget''
                         (detectFieldType pf pd [[''Alice'', ''x''], [''Bob'', ''y'']] (Suc 0)))]))"
    by (simp add: findFieldInNode_def Encode_Collection_def coll_def mapNode_def strPair_def
        strNode_def optStr_def optBool_def seqNode_def boolNode_def)
  have rp: "map removePrefixIfReserved [''name'', ''decapta_data''] = [''name'', ''data'']"
    by (simp add: removePrefixIfReserved_def HasPrefix_def TrimPrefix_def decaptaPrefix_def
        reservedFields_def)
  show ?thesis using pre ids gen syn ups fl rp scenario_roundtrip by simp
qed

theorem scenario_name_data_witness:
  "findField (strPair ''media_folder'' ''static'') ''collections'' = Inr None \<and>
   Decode_Folder (mapNode (strPair ''name'' ''pages'' @ strPair ''folder'' ''content/pages''))
     \<noteq> ''content/people'' \<and>
   CSVPreProcess scenarioTable [''name''] =
      Some ([''name'', ''decapta_data''],
            [(''1.yaml'', rowDocument [''name'', ''data''] [''name''] [''Alice'', ''x'']),
             (''2.yaml'', rowDocument [''name'', ''data''] [''name''] [''Bob'', ''y''])]) \<and>
   rowDocument [''name'', ''data''] [''name''] [''Alice'', ''x''] decaptaIDField = Some ''Alice'' \<and>
   rowDocument [''name'', ''data''] [''name''] [''Bob'', ''y''] decaptaIDField = Some ''Bob'' \<and>
   CSVGenerateConfig (\<lambda>s. False) (\<lambda>s. False) ''people'' ''content/people'' scenarioTable =
     Some \<lparr>Name = ''csv_people'', Label = ''CSV Data (people)'', Folder = ''content/people'',
           Create = True, Slug = ''{{slug}}'', IdentifierField = ''slug'', Format = ''yaml'',
           Extension = ''yaml'', Editor = \<lparr>Preview = False\<rparr>, Files = [],
           Fields = [Field ''Decapta ID'' ''slug'' ''string'' [] [] False [] [] True None [] [] [],
                     Field ''name'' ''name'' ''string'' [] [] False [] [] False None [] [] [],
                     Field ''data'' ''decapta_data'' ''string'' [] [] False [] [] False None [] [] []]\<rparr> \<and>
   CSVRoundTrip ''people'' scenarioTable [''name''] = Some scenarioTable"
proof -
  have h: "findField (strPair ''media_folder'' ''static'') ''collections'' = Inr None"
    by (simp add: strPair_def strNode_def)
  have f: "Decode_Folder (mapNode (strPair ''name'' ''pages'' @ strPair ''folder'' ''content/pages''))
     \<noteq> ''content/people''"
    by (simp add: Decode_Folder_def uniqueKeys_def mapNode_def strPair_def strNode_def isNull_def)
  from scenario_name_data[OF h, where pf = "\<lambda>s. False" and pd = "\<lambda>s. False" and t = "[]"
      and v = "[]" and t' = "''!!map''" and v' = "[]"
      and cn = "seqNode [mapNode (strPair ''name'' ''pages'' @ strPair ''folder'' ''content/pages'')]"]
  have "CSVPreProcess scenarioTable [''name''] =
      Some ([''name'', ''decapta_data''],
            [(''1.yaml'', rowDocument [''name'', ''data''] [''name''] [''Alice'', ''x'']),
             (''2.yaml'', rowDocument [''name'', ''data''] [''name''] [''Bob'', ''y''])])"
    "rowDocument [''name'', ''data''] [''name''] [''Alice'', ''x''] decaptaIDField = Some ''Alice''"
    "rowDocument [''name'', ''data''] [''name''] [''Bob'', ''y''] decaptaIDField = Some ''Bob''"
    "CSVRoundTrip ''people'' scenarioTable [''name''] = Some scenarioTable"
    by blast+
  then show ?thesis
    using h f scenario_collection[of "\<lambda>s. False" "\<lambda>s. False"]
    by (simp add: detect_name_column detect_data_column)
qed

end
